theory Spec2Isabelle
  imports Main "HOL-Library.Word" "HOL-Library.Sublist"
begin

unbundle bit_operations_syntax

section \<open>Python values, exceptions and printed output\<close>

text \<open>
  The two scripts, \<^verbatim>\<open>avro_serializer.py\<close> and \<^verbatim>\<open>avro_deserializer.py\<close>, are
  embedded function by function. A Python \<^verbatim>\<open>str\<close> is a \<^typ>\<open>string\<close>; a character
  stands for a code point below 256, where the only decimal digits are \<^verbatim>\<open>0\<close> to
  \<^verbatim>\<open>9\<close>. Python integers are unbounded, hence \<^typ>\<open>int\<close>. A raised exception is
  the left injection of a sum, and what a function prints is returned beside its result,
  one string per call of \<^verbatim>\<open>print\<close>.
\<close>

datatype exn =
    IndexError
  | ValueError
  | AttributeError
  | AvroTypeException
  | DecodeError

datatype pyval = IntV int | StrV string | ListV "pyval list"

type_synonym pydict = "(string \<times> pyval) list"

type_synonym 'a printed = "string list \<times> (exn + 'a)"

text \<open>Sequencing of steps that may raise: the first exception ends the computation.\<close>

definition exn_bind :: "exn + 'a \<Rightarrow> ('a \<Rightarrow> exn + 'b) \<Rightarrow> exn + 'b" where
  "exn_bind r f = (case r of Inl e \<Rightarrow> Inl e | Inr v \<Rightarrow> f v)"

subsection \<open>Indexing, \<^verbatim>\<open>str.split\<close>, \<^verbatim>\<open>str.replace\<close> and \<^verbatim>\<open>int\<close>\<close>

text \<open>
  \<^verbatim>\<open>xs[i]\<close>: positions \<open>0\<close> to \<open>len - 1\<close> read from the front, positions \<open>-1\<close>
  down to \<open>-len\<close> read from the back, and every other position raises.
\<close>

definition py_index :: "'a list \<Rightarrow> int \<Rightarrow> exn + 'a" where
  "py_index xs i =
     (if 0 \<le> i \<and> i < int (length xs) then Inr (xs ! nat i)
      else if i < 0 \<and> - int (length xs) \<le> i then Inr (xs ! nat (int (length xs) + i))
      else Inl IndexError)"

text \<open>
  \<^verbatim>\<open>s.split(sep)\<close> for a non-empty separator: the string is scanned from the left, and
  every occurrence of the separator found that way ends a part. The source only calls it
  with the literals \<^verbatim>\<open>','\<close>, \<^verbatim>\<open>'='\<close>, \<^verbatim>\<open>'/'\<close> and \<^verbatim>\<open>', '\<close>.
\<close>

fun py_split :: "string \<Rightarrow> string \<Rightarrow> string list" where
  "py_split sep [] = [[]]"
| "py_split sep (c # cs) =
     (if sep \<noteq> [] \<and> prefix sep (c # cs)
      then [] # py_split sep (drop (length sep - 1) cs)
      else (case py_split sep cs of
              [] \<Rightarrow> [[c]]
            | p # ps \<Rightarrow> (c # p) # ps))"

text \<open>\<^verbatim>\<open>s.replace(old, new)\<close> for a non-empty \<^verbatim>\<open>old\<close>, scanning from the left.\<close>

fun py_replace :: "string \<Rightarrow> string \<Rightarrow> string \<Rightarrow> string" where
  "py_replace old new [] = []"
| "py_replace old new (c # cs) =
     (if old \<noteq> [] \<and> prefix old (c # cs)
      then new @ py_replace old new (drop (length old - 1) cs)
      else c # py_replace old new cs)"

definition is_digit :: "char \<Rightarrow> bool" where
  "is_digit c \<longleftrightarrow> (48::nat) \<le> of_char c \<and> of_char c \<le> (57::nat)"

definition digit_val :: "char \<Rightarrow> int" where
  "digit_val c = int (of_char c) - 48"

text \<open>
  The characters below 256 that \<^verbatim>\<open>int\<close> skips around a number: tab, line feed, vertical
  tab, form feed, carriage return, space, next line and no-break space.
\<close>

definition is_space :: "char \<Rightarrow> bool" where
  "is_space c \<longleftrightarrow> of_char c \<in> {9, 10, 11, 12, 13, 32, 133, 160 :: nat}"

definition strip :: "string \<Rightarrow> string" where
  "strip s = rev (dropWhile is_space (rev (dropWhile is_space s)))"

text \<open>Decimal digits, with single underscores allowed between two digits.\<close>

fun digits_us :: "string \<Rightarrow> bool" where
  "digits_us [] = False"
| "digits_us [c] = is_digit c"
| "digits_us (c # d # cs) =
     (is_digit c \<and> (if d = CHR ''_'' then digits_us cs else digits_us (d # cs)))"

definition decimal :: "string \<Rightarrow> int" where
  "decimal s = foldl (\<lambda>a c. if c = CHR ''_'' then a else 10 * a + digit_val c) 0 s"

text \<open>
  \<^verbatim>\<open>int(s)\<close> in base 10: surrounding white space is dropped, one sign is allowed, and
  anything else than digits raises \<^verbatim>\<open>ValueError\<close>. So does a number of more than 4300
  digits, leading zeros counted and underscores not: this is the interpreter's default
  limit (\<^verbatim>\<open>sys.int_info.default_max_str_digits\<close>), which the scripts do not change.
\<close>

definition max_str_digits :: nat where
  "max_str_digits = 4300"

definition py_int :: "string \<Rightarrow> exn + int" where
  "py_int s =
     (let t = strip s;
          (sgn, body) = (case t of
                           [] \<Rightarrow> (1, [])
                         | c # r \<Rightarrow> if c = CHR ''-'' then (- 1, r)
                                    else if c = CHR ''+'' then (1, r)
                                    else (1, t))
      in if digits_us body \<and> length (filter is_digit body) \<le> max_str_digits
         then Inr (sgn * decimal body)
         else Inl ValueError)"

section \<open>Regular expressions: \<^verbatim>\<open>re.search\<close> by backtracking\<close>

text \<open>
  The two patterns of the source are sequences of single-character tests (\<^verbatim>\<open>\d\<close>,
  \<^verbatim>\<open>.\<close>, a literal), of repetitions of one such test (\<^verbatim>\<open>\d+\<close> greedy, \<^verbatim>\<open>.+?\<close> and
  \<^verbatim>\<open>.*?\<close> lazy) and of group parentheses. \<^verbatim>\<open>\d{4}\<close> is four times \<^verbatim>\<open>\d\<close>.
  Without the DOTALL flag, \<^verbatim>\<open>.\<close> is any character but the newline.
\<close>

datatype cclass = Lit char | Digit | Dot

fun cmatch :: "cclass \<Rightarrow> char \<Rightarrow> bool" where
  "cmatch (Lit a) c = (c = a)"
| "cmatch Digit c = is_digit c"
| "cmatch Dot c = (c \<noteq> CHR 0x0A)"

text \<open>\<open>Rep c n greedy\<close> is \<open>c\<close> repeated \<open>n\<close> times or more.\<close>

datatype item = One cclass | Rep cclass nat bool | Open | Close

text \<open>
  \<open>match_here its s\<close> matches the items at the start of \<open>s\<close> and returns, item by item,
  the piece of \<open>s\<close> each one consumed. The alternatives are tried in the order of the
  backtracking matcher: a greedy repetition first tries one more character, a lazy one
  first tries to stop, and the first alternative that lets the rest of the pattern match
  is the result.
\<close>

fun grow :: "char \<Rightarrow> string list \<Rightarrow> string list" where
  "grow x [] = [[x]]"
| "grow x (p # ps) = (x # p) # ps"

fun match_here :: "item list \<Rightarrow> string \<Rightarrow> string list option" where
  "match_here [] s = Some []"
| "match_here (One c # its) s =
     (case s of
        [] \<Rightarrow> None
      | x # xs \<Rightarrow> if cmatch c x then map_option (Cons [x]) (match_here its xs) else None)"
| "match_here (Open # its) s = map_option (Cons []) (match_here its s)"
| "match_here (Close # its) s = map_option (Cons []) (match_here its s)"
| "match_here (Rep c n True # its) s =
     (case (case s of
              [] \<Rightarrow> None
            | x # xs \<Rightarrow>
                if cmatch c x
                then map_option (grow x) (match_here (Rep c (n - 1) True # its) xs)
                else None) of
        Some ps \<Rightarrow> Some ps
      | None \<Rightarrow> if n = 0 then map_option (Cons []) (match_here its s) else None)"
| "match_here (Rep c n False # its) s =
     (case (if n = 0 then map_option (Cons []) (match_here its s) else None) of
        Some ps \<Rightarrow> Some ps
      | None \<Rightarrow>
          (case s of
             [] \<Rightarrow> None
           | x # xs \<Rightarrow>
               if cmatch c x
               then map_option (grow x) (match_here (Rep c (n - 1) False # its) xs)
               else None))"

text \<open>\<^verbatim>\<open>re.search\<close>: the first start position, from the left, where the pattern matches.\<close>

fun re_search_pieces :: "item list \<Rightarrow> string \<Rightarrow> string list option" where
  "re_search_pieces its [] = match_here its []"
| "re_search_pieces its (c # cs) =
     (case match_here its (c # cs) of
        Some ps \<Rightarrow> Some ps
      | None \<Rightarrow> re_search_pieces its cs)"

text \<open>\<^verbatim>\<open>match.groups()\<close>: the text between each opening and closing parenthesis.\<close>

fun groups :: "item list \<Rightarrow> string list \<Rightarrow> string option \<Rightarrow> string list" where
  "groups (Open # its) (p # ps) cur = groups its ps (Some [])"
| "groups (Close # its) (p # ps) cur =
     (case cur of None \<Rightarrow> [] | Some g \<Rightarrow> g) # groups its ps None"
| "groups (it # its) (p # ps) cur = groups its ps (map_option (\<lambda>g. g @ p) cur)"
| "groups its ps cur = []"

definition re_search :: "item list \<Rightarrow> string \<Rightarrow> string list option" where
  "re_search its s = map_option (\<lambda>ps. groups its ps None) (re_search_pieces its s)"

text \<open>
  What a match is, without the search: a piece fits an item when the item can consume
  exactly that piece, and the pieces fit a pattern item by item. The lemmas below relate
  \<open>match_here\<close> to this description.
\<close>

fun piece_ok :: "item \<Rightarrow> string \<Rightarrow> bool" where
  "piece_ok (One c) p = (length p = 1 \<and> list_all (cmatch c) p)"
| "piece_ok (Rep c n greedy) p = (n \<le> length p \<and> list_all (cmatch c) p)"
| "piece_ok Open p = (p = [])"
| "piece_ok Close p = (p = [])"

definition fits :: "item list \<Rightarrow> string list \<Rightarrow> bool" where
  "fits its ps = list_all2 piece_ok its ps"

definition matches :: "item list \<Rightarrow> string \<Rightarrow> bool" where
  "matches its w \<longleftrightarrow> (\<exists>ps. fits its ps \<and> concat ps = w)"

definition plain :: "item list \<Rightarrow> bool" where
  "plain its \<longleftrightarrow> Open \<notin> set its \<and> Close \<notin> set its"

definition lit :: "string \<Rightarrow> item list" where
  "lit s = map (\<lambda>c. One (Lit c)) s"

definition digits :: "nat \<Rightarrow> item list" where
  "digits n = replicate n (One Digit)"

definition grp :: "item list \<Rightarrow> item list" where
  "grp its = Open # its @ [Close]"

text \<open>
  \<^verbatim>\<open>(\d{4}-\d{2}-\d{2}T\d{2}:\d{2}:\d{2}),(\d+),GET /data/m/(.+?)/(\d+)\.mpg\<close>
\<close>

definition timestamp_re :: "item list" where
  "timestamp_re =
     digits 4 @ lit ''-'' @ digits 2 @ lit ''-'' @ digits 2 @ lit ''T'' @
     digits 2 @ lit '':'' @ digits 2 @ lit '':'' @ digits 2"

definition movie_watch_re :: "item list" where
  "movie_watch_re =
     grp timestamp_re @ lit '','' @ grp [Rep Digit 1 True] @ lit '',GET /data/m/'' @
     grp [Rep Dot 1 False] @ lit ''/'' @ grp [Rep Digit 1 True] @ lit ''.mpg''"

text \<open>
  \<^verbatim>\<open>(\d{4}-\d{2}-\d{2}T\d{2}:\d{2}:\d{2}\.\d+),(\d+),recommendation request (.*?), status (.*?), result: (.*?), (\d+) ms\<close>
\<close>

definition recommendation_re :: "item list" where
  "recommendation_re =
     grp (timestamp_re @ lit ''.'' @ [Rep Digit 1 True]) @ lit '','' @
     grp [Rep Digit 1 True] @ lit '',recommendation request '' @
     grp [Rep Dot 0 False] @ lit '', status '' @
     grp [Rep Dot 0 False] @ lit '', result: '' @
     grp [Rep Dot 0 False] @ lit '', '' @
     grp [Rep Digit 1 True] @ lit '' ms''"

text \<open>
  Three notions used to state what text around a match does to the search.
  \<open>match_begins its x rest\<close>: in the line \<open>x @ rest\<close>, the pattern matches from one of
  the positions of \<open>x\<close>. \<open>stable y its\<close>: a successful \<open>match_here\<close> gives the same
  pieces when \<open>y\<close> follows the input. \<open>avoids c it\<close>: the item never consumes the
  character \<open>c\<close>.
\<close>

fun match_begins :: "item list \<Rightarrow> string \<Rightarrow> string \<Rightarrow> bool" where
  "match_begins its [] rest = False"
| "match_begins its (c # cs) rest =
     (match_here its (c # cs @ rest) \<noteq> None \<or> match_begins its cs rest)"

definition stable :: "string \<Rightarrow> item list \<Rightarrow> bool" where
  "stable y its \<longleftrightarrow> (\<forall>r ps. match_here its r = Some ps \<longrightarrow> match_here its (r @ y) = Some ps)"

fun avoids :: "char \<Rightarrow> item \<Rightarrow> bool" where
  "avoids c (One k) = (\<not> cmatch k c)"
| "avoids c (Rep k n g) = (\<not> cmatch k c)"
| "avoids c Open = True"
| "avoids c Close = True"

section \<open>The line parsers\<close>

definition parse_movie_watch :: "string \<Rightarrow> pydict option printed" where
  "parse_movie_watch entry =
     (case re_search movie_watch_re entry of
        None \<Rightarrow> ([''Unexpected format for Movie Watch log entry: '' @ entry], Inr None)
      | Some [time, userid, movieid, minute] \<Rightarrow>
          (case py_int userid of
             Inl e \<Rightarrow> ([], Inl e)
           | Inr u \<Rightarrow>
               ([], Inr (Some [(''time'', StrV time),
                               (''userid'', IntV u),
                               (''movieid'', StrV (py_replace ''+'' '' '' movieid)),
                               (''minute'', StrV minute)])))
      | Some _ \<Rightarrow> ([], Inl ValueError))"

definition parse_recommendation :: "string \<Rightarrow> pydict option printed" where
  "parse_recommendation log_entry =
     (case re_search recommendation_re log_entry of
        Some [time, userid, server, status, results, responsetime] \<Rightarrow>
          (case py_int userid of
             Inl e \<Rightarrow> ([], Inl e)
           | Inr u \<Rightarrow>
               (case py_int status of
                  Inl e \<Rightarrow> ([], Inl e)
                | Inr st \<Rightarrow>
                    ([], Inr (Some [(''time'', StrV time),
                                    (''userid'', IntV u),
                                    (''server'', StrV server),
                                    (''status'', IntV st),
                                    (''recommendations'', ListV (map StrV (py_split '', '' results))),
                                    (''responsetime'', StrV (responsetime @ '' ms''))]))))
      | Some _ \<Rightarrow> ([], Inl ValueError)
      | None \<Rightarrow> ([''Could not parse recommendation log entry: '' @ log_entry], Inr None))"

definition parse_rating :: "string \<Rightarrow> pydict option printed" where
  "parse_rating log_entry =
     (let parts = py_split '','' log_entry in
      ([],
       exn_bind (py_index parts 0) (\<lambda>time.
       exn_bind (py_index parts 1) (\<lambda>p1.
       exn_bind (py_int p1) (\<lambda>userid.
       exn_bind (py_index parts 2) (\<lambda>p2.
       let movie_rating = py_split ''='' p2 in
       exn_bind (py_index movie_rating 0) (\<lambda>left.
       exn_bind (py_index (py_split ''/'' left) (- 1)) (\<lambda>movieid.
       exn_bind (py_index movie_rating 1) (\<lambda>rating.
         Inr (Some [(''time'', StrV time),
                    (''userid'', IntV userid),
                    (''movieid'', StrV movieid),
                    (''rating'', StrV rating)]))))))))))"

section \<open>Schemas and the binary codec\<close>

text \<open>
  The schema files (\<^verbatim>\<open>*.avsc\<close>) and the \<^verbatim>\<open>avro\<close> package are not among the source
  files. A schema is a record schema: its fields in order, each of a primitive type or an
  array of a primitive type (the data model of the specification is flat). The scripts
  load the three schemas into module-level variables; here they are a parameter.
\<close>

datatype prim = TInt | TLong | TString

datatype avro_type = Prim prim | Array prim

type_synonym schema = "(string \<times> avro_type) list"

record schemas =
  recommendation_request_schema :: schema
  movie_watch_schema :: schema
  movie_rating_schema :: schema

text \<open>
  Modelled from the spec: the content of \<^verbatim>\<open>recommendation_request_schema.avsc\<close>,
  \<^verbatim>\<open>movie_watch_schema.avsc\<close> and \<^verbatim>\<open>movie_rating_schema.avsc\<close>, which are missing from
  the source files. The fields are those of the data model (section 3 of the
  specification), under the keys the parsers use. The specification says "integer" for
  \<^verbatim>\<open>userid\<close> and \<^verbatim>\<open>status\<close> without a width, so the integer type \<open>k\<close> (\<open>TInt\<close> or
  \<open>TLong\<close>) stays a parameter.
\<close>

definition recommendation_request_avsc :: "prim \<Rightarrow> schema" where
  "recommendation_request_avsc k =
     [(''time'', Prim TString), (''userid'', Prim k), (''server'', Prim TString),
      (''status'', Prim k), (''recommendations'', Array TString),
      (''responsetime'', Prim TString)]"

definition movie_watch_avsc :: "prim \<Rightarrow> schema" where
  "movie_watch_avsc k =
     [(''time'', Prim TString), (''userid'', Prim k), (''movieid'', Prim TString),
      (''minute'', Prim TString)]"

definition movie_rating_avsc :: "prim \<Rightarrow> schema" where
  "movie_rating_avsc k =
     [(''time'', Prim TString), (''userid'', Prim k), (''movieid'', Prim TString),
      (''rating'', Prim TString)]"

definition load_schemas :: "prim \<Rightarrow> schemas" where
  "load_schemas k =
     \<lparr>recommendation_request_schema = recommendation_request_avsc k,
      movie_watch_schema = movie_watch_avsc k,
      movie_rating_schema = movie_rating_avsc k\<rparr>"

type_synonym byte = "8 word"

text \<open>
  Modelled from the spec: the encoder and decoder of the \<^verbatim>\<open>avro\<close> package
  (\<^verbatim>\<open>DatumWriter.write\<close>, \<^verbatim>\<open>DatumReader.read\<close>), the "schema-driven binary encoding"
  that the specification treats as an external collaborator. They follow the binary
  encoding of the format: an integer is zig-zag coded and written in groups of seven
  bits, low group first; a string is the number of its UTF-8 bytes followed by the bytes;
  an array is a block (the item count, then the items) followed by a zero count; a record
  is its fields in schema order, with no separator. The writer first validates the datum
  against the schema and raises when it does not fit.
\<close>

fun validate_prim :: "prim \<Rightarrow> pyval \<Rightarrow> bool" where
  "validate_prim TInt (IntV i) = (- (2 ^ 31) \<le> i \<and> i \<le> 2 ^ 31 - 1)"
| "validate_prim TLong (IntV i) = (- (2 ^ 63) \<le> i \<and> i \<le> 2 ^ 63 - 1)"
| "validate_prim TString (StrV s) = True"
| "validate_prim t v = False"

fun validate :: "avro_type \<Rightarrow> pyval \<Rightarrow> bool" where
  "validate (Prim t) v = validate_prim t v"
| "validate (Array t) (ListV xs) = list_all (validate_prim t) xs"
| "validate (Array t) v = False"

text \<open>A missing key reads as \<^verbatim>\<open>None\<close> (\<^verbatim>\<open>datum.get\<close>), which fits none of these types.\<close>

definition validate_record :: "schema \<Rightarrow> pydict \<Rightarrow> bool" where
  "validate_record sch datum =
     list_all (\<lambda>(name, t). case map_of datum name of None \<Rightarrow> False | Some v \<Rightarrow> validate t v) sch"

definition zigzag :: "int \<Rightarrow> int" where
  "zigzag d = push_bit 1 d XOR drop_bit 63 d"

definition unzigzag :: "int \<Rightarrow> int" where
  "unzigzag n = drop_bit 1 n XOR - (n AND 1)"

text \<open>
  The loop of \<^verbatim>\<open>write_long\<close> on the zig-zag value, which is not negative for a
  validated datum.
\<close>

function varint :: "int \<Rightarrow> byte list" where
  "varint n =
     (if 0 \<le> n \<and> n AND NOT 127 \<noteq> 0
      then word_of_int ((n AND 127) OR 128) # varint (drop_bit 7 n)
      else [word_of_int n])"
  by pat_completeness auto
termination
proof (relation "measure nat")
  show "wf (measure nat)" by simp
next
  fix n :: int
  assume "0 \<le> n \<and> n AND NOT 127 \<noteq> 0"
  then have "0 < n" by (cases "n = 0") auto
  then show "(drop_bit 7 n, n) \<in> measure nat"
    by (simp add: drop_bit_eq_div)
qed

definition write_long :: "int \<Rightarrow> byte list" where
  "write_long d = varint (zigzag d)"

fun read_long_loop :: "int \<Rightarrow> int \<Rightarrow> nat \<Rightarrow> byte list \<Rightarrow> exn + (int \<times> byte list)" where
  "read_long_loop b n shift bs =
     (if b AND 128 \<noteq> 0
      then (case bs of
              [] \<Rightarrow> Inl DecodeError
            | b' # bs' \<Rightarrow>
                read_long_loop (uint b') (n OR push_bit shift (uint b' AND 127)) (shift + 7) bs')
      else Inr (n, bs))"

definition read_long :: "byte list \<Rightarrow> exn + (int \<times> byte list)" where
  "read_long bs =
     (case bs of
        [] \<Rightarrow> Inl DecodeError
      | b # bs' \<Rightarrow>
          exn_bind (read_long_loop (uint b) (uint b AND 127) 7 bs')
            (\<lambda>(n, rest). Inr (unzigzag n, rest)))"

text \<open>UTF-8 of the code points below 256: one byte below 128, two bytes from there.\<close>

fun utf8_encode :: "string \<Rightarrow> byte list" where
  "utf8_encode [] = []"
| "utf8_encode (c # cs) =
     (let n = (of_char c :: nat) in
      if n < 128 then of_nat n # utf8_encode cs
      else of_nat (192 + n div 64) # of_nat (128 + n mod 64) # utf8_encode cs)"

text \<open>
  The inverse, on the byte sequences that are UTF-8 of code points below 256. Any other
  sequence is an error here: it is either invalid UTF-8 or text outside the alphabet of
  this model.
\<close>

fun utf8_decode :: "byte list \<Rightarrow> exn + string" where
  "utf8_decode [] = Inr []"
| "utf8_decode (b # bs) =
     (if unat b < 128 then exn_bind (utf8_decode bs) (\<lambda>cs. Inr (char_of (unat b) # cs))
      else if unat b = 194 \<or> unat b = 195 then
        (case bs of
           [] \<Rightarrow> Inl DecodeError
         | b2 # bs' \<Rightarrow>
             if 128 \<le> unat b2 \<and> unat b2 < 192
             then exn_bind (utf8_decode bs')
                    (\<lambda>cs. Inr (char_of ((unat b - 192) * 64 + (unat b2 - 128)) # cs))
             else Inl DecodeError)
      else Inl DecodeError)"

fun write_prim :: "prim \<Rightarrow> pyval \<Rightarrow> exn + byte list" where
  "write_prim TInt (IntV i) = Inr (write_long i)"
| "write_prim TLong (IntV i) = Inr (write_long i)"
| "write_prim TString (StrV s) =
     (let bs = utf8_encode s in Inr (write_long (int (length bs)) @ bs))"
| "write_prim t v = Inl AvroTypeException"

fun write_items :: "prim \<Rightarrow> pyval list \<Rightarrow> exn + byte list" where
  "write_items t [] = Inr []"
| "write_items t (x # xs) =
     exn_bind (write_prim t x) (\<lambda>b. exn_bind (write_items t xs) (\<lambda>bs. Inr (b @ bs)))"

fun write_data :: "avro_type \<Rightarrow> pyval \<Rightarrow> exn + byte list" where
  "write_data (Prim t) v = write_prim t v"
| "write_data (Array t) (ListV xs) =
     exn_bind (write_items t xs)
       (\<lambda>bs. Inr ((if length xs > 0 then write_long (int (length xs)) @ bs else []) @ write_long 0))"
| "write_data (Array t) v = Inl AvroTypeException"

fun write_record :: "schema \<Rightarrow> pydict \<Rightarrow> exn + byte list" where
  "write_record [] datum = Inr []"
| "write_record ((name, t) # flds) datum =
     (case map_of datum name of
        None \<Rightarrow> Inl AvroTypeException
      | Some v \<Rightarrow>
          exn_bind (write_data t v)
            (\<lambda>b. exn_bind (write_record flds datum) (\<lambda>bs. Inr (b @ bs))))"

fun read_prim :: "prim \<Rightarrow> byte list \<Rightarrow> exn + (pyval \<times> byte list)" where
  "read_prim TInt bs = exn_bind (read_long bs) (\<lambda>(i, rest). Inr (IntV i, rest))"
| "read_prim TLong bs = exn_bind (read_long bs) (\<lambda>(i, rest). Inr (IntV i, rest))"
| "read_prim TString bs =
     exn_bind (read_long bs)
       (\<lambda>(n, rest).
          if n < 0 \<or> int (length rest) < n then Inl DecodeError
          else exn_bind (utf8_decode (take (nat n) rest))
                 (\<lambda>s. Inr (StrV s, drop (nat n) rest)))"

fun read_items :: "prim \<Rightarrow> nat \<Rightarrow> byte list \<Rightarrow> exn + (pyval list \<times> byte list)" where
  "read_items t 0 bs = Inr ([], bs)"
| "read_items t (Suc k) bs =
     exn_bind (read_prim t bs)
       (\<lambda>(x, rest). exn_bind (read_items t k rest) (\<lambda>(xs, rest'). Inr (x # xs, rest')))"

text \<open>
  The blocks of an array: a count, the items, the next count, until a zero count. A
  negative count is followed by the byte size of the block, which is read and ignored.
\<close>

function read_blocks :: "prim \<Rightarrow> byte list \<Rightarrow> exn + (pyval list \<times> byte list)" where
  "read_blocks t bs =
     (case read_long bs of
        Inl e \<Rightarrow> Inl e
      | Inr (block_count, rest) \<Rightarrow>
          if block_count = 0 then Inr ([], rest)
          else
            (case (if block_count < 0
                   then (case read_long rest of Inl e \<Rightarrow> Inl e | Inr (block_size, r) \<Rightarrow> Inr r)
                   else Inr rest) of
               Inl e \<Rightarrow> Inl e
             | Inr rest1 \<Rightarrow>
                 (case read_items t (nat \<bar>block_count\<bar>) rest1 of
                    Inl e \<Rightarrow> Inl e
                  | Inr (xs, rest2) \<Rightarrow>
                      (case read_blocks t rest2 of
                         Inl e \<Rightarrow> Inl e
                       | Inr (ys, rest3) \<Rightarrow> Inr (xs @ ys, rest3)))))"
  by pat_completeness auto
termination
proof (relation "measure (\<lambda>(t, bs). length bs)")
  have loop_le: "length rest \<le> length bs"
    if "read_long_loop b n sh bs = Inr (r, rest)" for b n sh bs r rest
    using that
  proof (induction bs arbitrary: b n sh)
    case Nil
    then show ?case by (simp split: if_splits)
  next
    case (Cons b' bs')
    show ?case
    proof (cases "b AND 128 \<noteq> 0")
      case True
      with Cons.prems
      have "read_long_loop (uint b') (n OR push_bit sh (uint b' AND 127)) (sh + 7) bs' = Inr (r, rest)"
        by simp
      from Cons.IH [OF this] show ?thesis by simp
    next
      case False
      with Cons.prems show ?thesis by simp
    qed
  qed
  have long_lt: "length rest < length bs"
    if "read_long bs = Inr (n, rest)" for bs n rest
  proof (cases bs)
    case Nil
    with that show ?thesis by (simp add: read_long_def)
  next
    case (Cons b bs')
    with that obtain m where "read_long_loop (uint b) (uint b AND 127) 7 bs' = Inr (m, rest)"
      by (auto simp: read_long_def exn_bind_def split: sum.splits)
    from loop_le [OF this] Cons show ?thesis by simp
  qed
  have prim_le: "length rest \<le> length bs"
    if "read_prim t bs = Inr (v, rest)" for t bs v rest
    using that long_lt
    by (cases t) (fastforce simp: exn_bind_def split: sum.splits if_splits dest: less_imp_le)+
  have items_le: "length rest \<le> length bs"
    if "read_items t k bs = Inr (xs, rest)" for t k bs xs rest
    using that
  proof (induction k arbitrary: bs xs)
    case 0
    then show ?case by simp
  next
    case (Suc k)
    then obtain x r1 xs' where a: "read_prim t bs = Inr (x, r1)"
      and b: "read_items t k r1 = Inr (xs', rest)"
      by (auto simp: exn_bind_def split: sum.splits)
    from Suc.IH [OF b] prim_le [OF a] show ?case by simp
  qed
  show "wf (measure (\<lambda>(t, bs). length bs))" by simp
  fix t :: prim and bs x21 block_count rest rest1 x21a xs rest2
  assume a: "read_long bs = Inr x21" "(block_count, rest) = x21"
    and c: "(if block_count < 0
             then case read_long rest of Inl e \<Rightarrow> Inl e | Inr (block_size, r) \<Rightarrow> Inr r
             else Inr rest) = Inr rest1"
    and d: "read_items t (nat \<bar>block_count\<bar>) rest1 = Inr x21a" "(xs, rest2) = x21a"
  from a have 1: "length rest < length bs" using long_lt [of bs block_count rest] by simp
  from c have 2: "length rest1 \<le> length rest"
    using long_lt by (fastforce split: if_splits sum.splits dest: less_imp_le)
  from d have 3: "length rest2 \<le> length rest1"
    using items_le [of t "nat \<bar>block_count\<bar>" rest1 xs rest2] by simp
  from 1 2 3 show "((t, rest2), (t, bs)) \<in> measure (\<lambda>(t, bs). length bs)" by simp
qed

fun read_data :: "avro_type \<Rightarrow> byte list \<Rightarrow> exn + (pyval \<times> byte list)" where
  "read_data (Prim t) bs = read_prim t bs"
| "read_data (Array t) bs = exn_bind (read_blocks t bs) (\<lambda>(xs, rest). Inr (ListV xs, rest))"

fun read_record :: "schema \<Rightarrow> byte list \<Rightarrow> exn + (pydict \<times> byte list)" where
  "read_record [] bs = Inr ([], bs)"
| "read_record ((name, t) # flds) bs =
     exn_bind (read_data t bs)
       (\<lambda>(v, rest). exn_bind (read_record flds rest) (\<lambda>(d, rest'). Inr ((name, v) # d, rest')))"

text \<open>
  Two conditions on a record, used to state when the codec gives it back. A Python object
  cannot be larger than the address space, so every string and list of a running program
  is \<open>small\<close>; the model's lists have no such bound, and the length prefix of the
  encoding is only right below \<open>2 ^ 63\<close>. \<open>ints_fit k d\<close> says that every integer of
  the record is in the range of the integer type \<open>k\<close>.
\<close>

fun small :: "pyval \<Rightarrow> bool" where
  "small (IntV i) = True"
| "small (StrV s) = (int (length (utf8_encode s)) < 2 ^ 63)"
| "small (ListV xs) = (int (length xs) < 2 ^ 63 \<and> list_all small xs)"

definition small_record :: "pydict \<Rightarrow> bool" where
  "small_record d = list_all (\<lambda>(name, v). small v) d"

definition ints_fit :: "prim \<Rightarrow> pydict \<Rightarrow> bool" where
  "ints_fit k d =
     list_all (\<lambda>(name, v). case v of IntV i \<Rightarrow> validate_prim k (IntV i) | _ \<Rightarrow> True) d"

section \<open>\<^verbatim>\<open>avro_serializer.py\<close>: encoding, dispatch and the batch loop\<close>

definition encode_avro :: "pydict \<Rightarrow> schema \<Rightarrow> exn + byte list" where
  "encode_avro data sch =
     (if validate_record sch data then write_record sch data else Inl AvroTypeException)"

text \<open>
  The second component of what \<^verbatim>\<open>identify_and_parse_log_entry\<close> returns is a schema,
  \<^verbatim>\<open>None\<close>, or the pair \<^verbatim>\<open>(None, None)\<close>: in
  \<^verbatim>\<open>return data, schema if data else (None, None)\<close> the conditional binds tighter than
  the comma, so the pair is the value of the conditional only.
\<close>

datatype schema_slot = SchemaV schema | NoneV | NonePairV

text \<open>Truth value of such an object: \<^verbatim>\<open>None\<close> is false, a non-empty tuple is true.\<close>

fun truthy_slot :: "schema_slot \<Rightarrow> bool" where
  "truthy_slot (SchemaV sch) = True"
| "truthy_slot NoneV = False"
| "truthy_slot NonePairV = True"

text \<open>Truth value of \<^verbatim>\<open>data\<close>: \<^verbatim>\<open>None\<close> and the empty dict are false.\<close>

fun truthy_data :: "pydict option \<Rightarrow> bool" where
  "truthy_data None = False"
| "truthy_data (Some d) = (d \<noteq> [])"

definition with_schema :: "schema \<Rightarrow> pydict option printed \<Rightarrow> (pydict option \<times> schema_slot) printed" where
  "with_schema sch r =
     (case r of
        (out, Inl e) \<Rightarrow> (out, Inl e)
      | (out, Inr data) \<Rightarrow> (out, Inr (data, if truthy_data data then SchemaV sch else NonePairV)))"

definition identify_and_parse_log_entry ::
  "schemas \<Rightarrow> string \<Rightarrow> string \<Rightarrow> (pydict option \<times> schema_slot) printed" where
  "identify_and_parse_log_entry ss log_type log_entry =
     (if log_type = ''Recommendation'' then
        with_schema (recommendation_request_schema ss) (parse_recommendation log_entry)
      else if log_type = ''Movie'' then
        with_schema (movie_watch_schema ss) (parse_movie_watch log_entry)
      else if log_type = ''Rating'' then
        with_schema (movie_rating_schema ss) (parse_rating log_entry)
      else ([''Skipping unknown log entry type: '' @ log_type], Inr (None, NoneV)))"

text \<open>
  The three output files, each the bytes written so far, and the standard output. A CSV
  row is its \<^verbatim>\<open>Type\<close> and its \<^verbatim>\<open>Log Entry\<close>.
\<close>

record files =
  rec_file :: "byte list"
  movie_file :: "byte list"
  rating_file :: "byte list"

definition empty_files :: files where
  "empty_files = \<lparr>rec_file = [], movie_file = [], rating_file = []\<rparr>"

definition file_write :: "string \<Rightarrow> byte list \<Rightarrow> files \<Rightarrow> files" where
  "file_write log_type bs fs =
     (if log_type = ''Recommendation'' then fs\<lparr>rec_file := rec_file fs @ bs\<rparr>
      else if log_type = ''Movie'' then fs\<lparr>movie_file := movie_file fs @ bs\<rparr>
      else if log_type = ''Rating'' then fs\<lparr>rating_file := rating_file fs @ bs\<rparr>
      else fs)"

text \<open>One turn of the loop over the rows: what it prints, and the files or the exception.\<close>

definition process_row :: "schemas \<Rightarrow> string \<times> string \<Rightarrow> files \<Rightarrow> files printed" where
  "process_row ss row fs =
     (case identify_and_parse_log_entry ss (fst row) (snd row) of
        (out, Inl e) \<Rightarrow> (out, Inl e)
      | (out, Inr (parsed_data, slot)) \<Rightarrow>
          if parsed_data \<noteq> None \<and> truthy_slot slot then
            (case slot of
               SchemaV sch \<Rightarrow>
                 (case encode_avro (the parsed_data) sch of
                    Inl e \<Rightarrow> (out, Inl e)
                  | Inr binary_data \<Rightarrow> (out, Inr (file_write (fst row) binary_data fs)))
             | _ \<Rightarrow> (out, Inl AttributeError))
          else (out @ [''Skipping log entry due to parsing error: '' @ snd row], Inr fs))"

text \<open>
  The run of the script over the rows. An exception leaves the loop and the script; the
  files keep what was written before it. The last line is printed after the loop only.
\<close>

record run =
  stdout :: "string list"
  written :: files
  raised :: "exn option"

fun write_rows :: "schemas \<Rightarrow> (string \<times> string) list \<Rightarrow> string list \<Rightarrow> files \<Rightarrow> run" where
  "write_rows ss [] out fs =
     \<lparr>stdout = out @ [''Binary Avro data has been written to files.''], written = fs, raised = None\<rparr>"
| "write_rows ss (row # rows) out fs =
     (case process_row ss row fs of
        (out', Inl e) \<Rightarrow> \<lparr>stdout = out @ out', written = fs, raised = Some e\<rparr>
      | (out', Inr fs') \<Rightarrow> write_rows ss rows (out @ out') fs')"

definition serializer_main :: "schemas \<Rightarrow> (string \<times> string) list \<Rightarrow> run" where
  "serializer_main ss rows = write_rows ss rows [] empty_files"

section \<open>\<^verbatim>\<open>avro_deserializer.py\<close>\<close>

text \<open>
  \<^verbatim>\<open>decode_avro\<close> reads one datum from the start of the data and returns it; what
  follows the datum is not looked at.
\<close>

definition decode_avro :: "byte list \<Rightarrow> schema \<Rightarrow> exn + pydict" where
  "decode_avro binary_data sch = exn_bind (read_record sch binary_data) (\<lambda>(d, rest). Inr d)"

text \<open>
  \<^verbatim>\<open>read_from_avro\<close> on the content of the file: the records it prints, in order, and
  whether it raised.
\<close>

definition read_from_avro :: "byte list \<Rightarrow> schema \<Rightarrow> pydict list \<times> (exn + unit)" where
  "read_from_avro file_content sch =
     (case decode_avro file_content sch of
        Inl e \<Rightarrow> ([], Inl e)
      | Inr decoded_data \<Rightarrow> ([decoded_data], Inr ()))"

section \<open>The documented scenarios\<close>

text \<open>
  C6. The recommendation line of scenario 1 parses to the record of the specification:
  \<^verbatim>\<open>userid\<close> and \<^verbatim>\<open>status\<close> are integers, the result list is split on \<^verbatim>\<open>", "\<close> in
  order, and \<^verbatim>\<open>responsetime\<close> is the captured number followed by \<^verbatim>\<open>" ms"\<close>.
\<close>

theorem parse_recommendation_scenario:
  "parse_recommendation
     ''2023-08-01T10:15:30.123,42,recommendation request srv1, status 200, result: tt001, tt002, 150 ms'' =
   ([], Inr (Some [(''time'', StrV ''2023-08-01T10:15:30.123''),
                   (''userid'', IntV 42),
                   (''server'', StrV ''srv1''),
                   (''status'', IntV 200),
                   (''recommendations'', ListV [StrV ''tt001'', StrV ''tt002'']),
                   (''responsetime'', StrV ''150 ms'')])) \<and>
   re_search recommendation_re
     ''2023-08-01T10:15:30.123,42,recommendation request srv1, status 200, result: tt001, tt002, 150 ms'' =
   Some [''2023-08-01T10:15:30.123'', ''42'', ''srv1'', ''200'', ''tt001, tt002'', ''150''] \<and>
   py_split '', '' ''tt001, tt002'' = [''tt001'', ''tt002'']"
  by code_simp

text \<open>
  C8. The rating line of scenario 3 parses to the record of the specification: the line
  splits on \<^verbatim>\<open>","\<close> into three parts, the third part splits on \<^verbatim>\<open>"="\<close>, \<^verbatim>\<open>movieid\<close> is
  the last \<^verbatim>\<open>"/"\<close>-separated segment of the left side and \<^verbatim>\<open>rating\<close> is the right side,
  a string.
\<close>

theorem parse_rating_scenario:
  "parse_rating ''2023-08-01T10:17:00,42,/data/m/Inception=4'' =
   ([], Inr (Some [(''time'', StrV ''2023-08-01T10:17:00''),
                   (''userid'', IntV 42),
                   (''movieid'', StrV ''Inception''),
                   (''rating'', StrV ''4'')])) \<and>
   py_split '','' ''2023-08-01T10:17:00,42,/data/m/Inception=4'' =
     [''2023-08-01T10:17:00'', ''42'', ''/data/m/Inception=4''] \<and>
   py_split ''='' ''/data/m/Inception=4'' = [''/data/m/Inception'', ''4''] \<and>
   py_split ''/'' ''/data/m/Inception'' = [[], ''data'', ''m'', ''Inception'']"
  by code_simp

section \<open>Where the scripts leave the specification\<close>

text \<open>
  C1. The parsers do raise. A rating line with fewer than three comma-separated parts,
  or without \<^verbatim>\<open>"="\<close> in its third part, raises \<^verbatim>\<open>IndexError\<close>; a rating line with a
  non-numeric user id and a recommendation line with a non-numeric status raise
  \<^verbatim>\<open>ValueError\<close>. Nothing is reported, and the batch that meets such a row stops there,
  before its closing message.
\<close>

theorem parsers_raise_on_malformed_lines:
  "parse_rating ''garbage line'' = ([], Inl IndexError) \<and>
   parse_rating ''2023-08-01T10:17:00,42,/data/m/Inception'' = ([], Inl IndexError) \<and>
   parse_rating ''2023-08-01T10:17:00,abc,/data/m/Inception=4'' = ([], Inl ValueError) \<and>
   parse_recommendation
     ''2023-08-01T10:15:30.123,42,recommendation request srv1, status OK, result: tt001, tt002, 150 ms'' =
     ([], Inl ValueError) \<and>
   serializer_main ss [(''Rating'', ''garbage line'')] =
     \<lparr>stdout = [], written = empty_files, raised = Some IndexError\<rparr>"
proof -
  have a: "parse_rating ''garbage line'' = ([], Inl IndexError)"
    by code_simp
  have b: "parse_rating ''2023-08-01T10:17:00,42,/data/m/Inception'' = ([], Inl IndexError)"
    by code_simp
  have c: "parse_rating ''2023-08-01T10:17:00,abc,/data/m/Inception=4'' = ([], Inl ValueError)"
    by code_simp
  have d: "parse_recommendation
     ''2023-08-01T10:15:30.123,42,recommendation request srv1, status OK, result: tt001, tt002, 150 ms'' =
     ([], Inl ValueError)"
    by code_simp
  have e: "serializer_main ss [(''Rating'', ''garbage line'')] =
     \<lparr>stdout = [], written = empty_files, raised = Some IndexError\<rparr>"
    by (simp add: serializer_main_def process_row_def identify_and_parse_log_entry_def
        with_schema_def a)
  from a b c d e show ?thesis by (intro conjI)
qed

text \<open>
  C3. An unknown tag is reported and gives \<^verbatim>\<open>None\<close> for both components. A known tag
  whose parser reports failure gives \<^verbatim>\<open>None\<close> for the record but the pair
  \<^verbatim>\<open>(None, None)\<close> for the schema: an object that is not \<^verbatim>\<open>None\<close> and counts as true.
\<close>

theorem failed_parse_schema_slot_not_none:
  "identify_and_parse_log_entry ss ''Comment'' ''hello'' =
     ([''Skipping unknown log entry type: Comment''], Inr (None, NoneV)) \<and>
   identify_and_parse_log_entry ss ''Movie'' ''garbage line'' =
     ([''Unexpected format for Movie Watch log entry: garbage line''], Inr (None, NonePairV)) \<and>
   NonePairV \<noteq> NoneV \<and> truthy_slot NonePairV"
proof -
  have a: "parse_movie_watch ''garbage line'' =
     ([''Unexpected format for Movie Watch log entry: garbage line''], Inr None)"
    by code_simp
  have b: "identify_and_parse_log_entry ss ''Comment'' ''hello'' =
     ([''Skipping unknown log entry type: Comment''], Inr (None, NoneV))"
    by (simp add: identify_and_parse_log_entry_def)
  have c: "identify_and_parse_log_entry ss ''Movie'' ''garbage line'' =
     ([''Unexpected format for Movie Watch log entry: garbage line''], Inr (None, NonePairV))"
    by (simp add: identify_and_parse_log_entry_def with_schema_def a)
  from b c show ?thesis by simp
qed

text \<open>
  C2. \<^verbatim>\<open>read_from_avro\<close> prints at most one record, whatever the file holds. The writer
  puts the two watch records below into one file, one after the other, and the reader
  prints the first of them only.
\<close>

theorem read_from_avro_one_record:
  "length (fst (read_from_avro file_content sch)) \<le> 1 \<and>
   written (serializer_main (load_schemas TLong)
      [(''Movie'', ''2023-08-01T10:16:00,42,GET /data/m/The+Matrix/5.mpg''),
       (''Movie'', ''2023-08-01T10:16:05,43,GET /data/m/Up/7.mpg'')]) =
     \<lparr>rec_file = [],
      movie_file =
        [38, 50, 48, 50, 51, 45, 48, 56, 45, 48, 49, 84, 49, 48, 58, 49, 54, 58, 48, 48, 84,
         20, 84, 104, 101, 32, 77, 97, 116, 114, 105, 120, 2, 53] @
        [38, 50, 48, 50, 51, 45, 48, 56, 45, 48, 49, 84, 49, 48, 58, 49, 54, 58, 48, 53, 86,
         4, 85, 112, 2, 55],
      rating_file = []\<rparr> \<and>
   encode_avro [(''time'', StrV ''2023-08-01T10:16:05''), (''userid'', IntV 43),
                (''movieid'', StrV ''Up''), (''minute'', StrV ''7'')] (movie_watch_avsc TLong) =
     Inr [38, 50, 48, 50, 51, 45, 48, 56, 45, 48, 49, 84, 49, 48, 58, 49, 54, 58, 48, 53, 86,
          4, 85, 112, 2, 55] \<and>
   read_from_avro
     ([38, 50, 48, 50, 51, 45, 48, 56, 45, 48, 49, 84, 49, 48, 58, 49, 54, 58, 48, 48, 84,
       20, 84, 104, 101, 32, 77, 97, 116, 114, 105, 120, 2, 53] @
      [38, 50, 48, 50, 51, 45, 48, 56, 45, 48, 49, 84, 49, 48, 58, 49, 54, 58, 48, 53, 86,
       4, 85, 112, 2, 55]) (movie_watch_avsc TLong) =
     ([[(''time'', StrV ''2023-08-01T10:16:00''), (''userid'', IntV 42),
        (''movieid'', StrV ''The Matrix''), (''minute'', StrV ''5'')]], Inr ())"
proof -
  have a: "length (fst (read_from_avro file_content sch)) \<le> 1"
    by (simp add: read_from_avro_def split: sum.splits)
  have b: "written (serializer_main (load_schemas TLong)
      [(''Movie'', ''2023-08-01T10:16:00,42,GET /data/m/The+Matrix/5.mpg''),
       (''Movie'', ''2023-08-01T10:16:05,43,GET /data/m/Up/7.mpg'')]) =
     \<lparr>rec_file = [],
      movie_file =
        [38, 50, 48, 50, 51, 45, 48, 56, 45, 48, 49, 84, 49, 48, 58, 49, 54, 58, 48, 48, 84,
         20, 84, 104, 101, 32, 77, 97, 116, 114, 105, 120, 2, 53] @
        [38, 50, 48, 50, 51, 45, 48, 56, 45, 48, 49, 84, 49, 48, 58, 49, 54, 58, 48, 53, 86,
         4, 85, 112, 2, 55],
      rating_file = []\<rparr>"
    by code_simp
  have c: "encode_avro [(''time'', StrV ''2023-08-01T10:16:05''), (''userid'', IntV 43),
                (''movieid'', StrV ''Up''), (''minute'', StrV ''7'')] (movie_watch_avsc TLong) =
     Inr [38, 50, 48, 50, 51, 45, 48, 56, 45, 48, 49, 84, 49, 48, 58, 49, 54, 58, 48, 53, 86,
          4, 85, 112, 2, 55]"
    by code_simp
  have d: "read_from_avro
     ([38, 50, 48, 50, 51, 45, 48, 56, 45, 48, 49, 84, 49, 48, 58, 49, 54, 58, 48, 48, 84,
       20, 84, 104, 101, 32, 77, 97, 116, 114, 105, 120, 2, 53] @
      [38, 50, 48, 50, 51, 45, 48, 56, 45, 48, 49, 84, 49, 48, 58, 49, 54, 58, 48, 53, 86,
       4, 85, 112, 2, 55]) (movie_watch_avsc TLong) =
     ([[(''time'', StrV ''2023-08-01T10:16:00''), (''userid'', IntV 42),
        (''movieid'', StrV ''The Matrix''), (''minute'', StrV ''5'')]], Inr ())"
    by code_simp
  from a b c d show ?thesis by (intro conjI)
qed

text \<open>
  C5. The line \<^verbatim>\<open>garbage line\<close> under the tag \<^verbatim>\<open>Movie\<close> fails to parse, is reported, and
  writes nothing, and the batch goes on to the next row. The same line under the tag
  \<^verbatim>\<open>Rating\<close> raises: the batch stops, and the watch row after it, which parses, is in no
  output file.
\<close>

theorem batch_stops_at_raising_row:
  "serializer_main (load_schemas TLong)
     [(''Movie'', ''garbage line''),
      (''Movie'', ''2023-08-01T10:16:00,42,GET /data/m/The+Matrix/5.mpg'')] =
     \<lparr>stdout = [''Unexpected format for Movie Watch log entry: garbage line'',
                ''Skipping log entry due to parsing error: garbage line'',
                ''Binary Avro data has been written to files.''],
      written = \<lparr>rec_file = [],
                 movie_file =
                   [38, 50, 48, 50, 51, 45, 48, 56, 45, 48, 49, 84, 49, 48, 58, 49, 54, 58,
                    48, 48, 84, 20, 84, 104, 101, 32, 77, 97, 116, 114, 105, 120, 2, 53],
                 rating_file = []\<rparr>,
      raised = None\<rparr> \<and>
   serializer_main ss
     [(''Rating'', ''garbage line''),
      (''Movie'', ''2023-08-01T10:16:00,42,GET /data/m/The+Matrix/5.mpg'')] =
     \<lparr>stdout = [], written = empty_files, raised = Some IndexError\<rparr> \<and>
   movie_file empty_files = [] \<and>
   parse_movie_watch ''2023-08-01T10:16:00,42,GET /data/m/The+Matrix/5.mpg'' =
     ([], Inr (Some [(''time'', StrV ''2023-08-01T10:16:00''), (''userid'', IntV 42),
                     (''movieid'', StrV ''The Matrix''), (''minute'', StrV ''5'')]))"
proof -
  have a: "serializer_main (load_schemas TLong)
     [(''Movie'', ''garbage line''),
      (''Movie'', ''2023-08-01T10:16:00,42,GET /data/m/The+Matrix/5.mpg'')] =
     \<lparr>stdout = [''Unexpected format for Movie Watch log entry: garbage line'',
                ''Skipping log entry due to parsing error: garbage line'',
                ''Binary Avro data has been written to files.''],
      written = \<lparr>rec_file = [],
                 movie_file =
                   [38, 50, 48, 50, 51, 45, 48, 56, 45, 48, 49, 84, 49, 48, 58, 49, 54, 58,
                    48, 48, 84, 20, 84, 104, 101, 32, 77, 97, 116, 114, 105, 120, 2, 53],
                 rating_file = []\<rparr>,
      raised = None\<rparr>"
    by code_simp
  have r: "parse_rating ''garbage line'' = ([], Inl IndexError)"
    by code_simp
  have b: "serializer_main ss
     [(''Rating'', ''garbage line''),
      (''Movie'', ''2023-08-01T10:16:00,42,GET /data/m/The+Matrix/5.mpg'')] =
     \<lparr>stdout = [], written = empty_files, raised = Some IndexError\<rparr>"
    by (simp add: serializer_main_def process_row_def identify_and_parse_log_entry_def
        with_schema_def r)
  have c: "movie_file empty_files = []"
    by (simp add: empty_files_def)
  have d: "parse_movie_watch ''2023-08-01T10:16:00,42,GET /data/m/The+Matrix/5.mpg'' =
     ([], Inr (Some [(''time'', StrV ''2023-08-01T10:16:00''), (''userid'', IntV 42),
                     (''movieid'', StrV ''The Matrix''), (''minute'', StrV ''5'')]))"
    by code_simp
  from a b c d show ?thesis by (intro conjI)
qed

section \<open>The rating parser on lines with extra content\<close>

lemma py_split_nonempty: "py_split sep s \<noteq> []"
  by (induction s) (auto split: list.splits)

lemma py_split_char_absent: "c \<notin> set a \<Longrightarrow> py_split [c] a = [a]"
  by (induction a) auto

lemma py_split_char_append: "py_split [c] (a @ c # b) = py_split [c] a @ py_split [c] b"
proof (induction a)
  case Nil
  show ?case by simp
next
  case (Cons x a)
  obtain p ps where "py_split [c] a = p # ps"
    using py_split_nonempty [of "[c]" a] by (cases "py_split [c] a") auto
  with Cons show ?case by (cases "x = c") auto
qed

lemma py_index_0: "py_index (x # xs) 0 = Inr x"
  by (simp add: py_index_def)

lemma py_index_1: "py_index (x # y # xs) 1 = Inr y"
  by (simp add: py_index_def)

lemma py_index_2: "py_index (x # y # z # xs) 2 = Inr z"
  by (simp add: py_index_def)

lemma py_index_last: "xs \<noteq> [] \<Longrightarrow> py_index xs (- 1) = Inr (last xs)"
  by (cases xs) (auto simp: py_index_def last_conv_nth)

lemma last_segment:
  assumes "c \<notin> set m" and "d = [] \<or> last d = c"
  shows "last (py_split [c] (d @ m)) = m"
proof (cases "d = []")
  case True
  with assms show ?thesis by (simp add: py_split_char_absent)
next
  case False
  with assms obtain a where d: "d = a @ [c]"
    by (metis append_butlast_last_id)
  have "py_split [c] (d @ m) = py_split [c] a @ py_split [c] m"
    using py_split_char_append [of c a m] by (simp add: d)
  with assms show ?thesis by (simp add: py_split_char_absent)
qed

lemma py_int_42: "py_int ''42'' = Inr 42"
  by code_simp

text \<open>
  C10, as the code has it. Take a line whose first three comma-separated parts are \<open>t\<close>,
  \<open>p1\<close> and \<open>p2\<close>, where \<^verbatim>\<open>int(p1)\<close> succeeds and \<open>p2\<close> holds at least one \<^verbatim>\<open>"="\<close>:
  \<open>p2\<close> is \<open>left\<close>, \<^verbatim>\<open>"="\<close>, \<open>rating\<close> and then either nothing or a second \<^verbatim>\<open>"="\<close> with
  more text (\<open>junk\<close>). Whatever follows the third part (\<open>extra\<close>: nothing, or a comma and
  more text), the parser returns the record made of \<open>t\<close>, the integer, the last
  \<^verbatim>\<open>"/"\<close>-segment of \<open>left\<close> and \<open>rating\<close>; \<open>junk\<close> and \<open>extra\<close> are dropped without a
  report.
\<close>

theorem rating_extra_content_dropped:
  assumes t: "CHR '','' \<notin> set t"
    and u: "CHR '','' \<notin> set p1" "py_int p1 = Inr userid"
    and p2: "p2 = left @ ''='' @ rating @ junk" "CHR '','' \<notin> set p2"
    and l: "CHR ''='' \<notin> set left" "left = dir @ movieid"
           "dir = [] \<or> last dir = CHR ''/''" "CHR ''/'' \<notin> set movieid"
    and r: "CHR ''='' \<notin> set rating"
    and j: "junk = [] \<or> hd junk = CHR ''=''"
    and e: "extra = [] \<or> hd extra = CHR '',''"
  shows "parse_rating (t @ '','' @ p1 @ '','' @ p2 @ extra) =
         ([], Inr (Some [(''time'', StrV t), (''userid'', IntV userid),
                         (''movieid'', StrV movieid), (''rating'', StrV rating)]))"
proof -
  have ex: "\<exists>more. py_split '','' (p2 @ extra) = p2 # more"
  proof (cases extra)
    case Nil
    with p2 show ?thesis by (simp add: py_split_char_absent)
  next
    case (Cons x rest)
    with e have "x = CHR '',''" by simp
    with Cons p2 show ?thesis
      using py_split_char_append [of "CHR '',''" p2 rest] by (simp add: py_split_char_absent)
  qed
  then obtain more where m: "py_split '','' (p2 @ extra) = p2 # more" ..
  have parts: "py_split '','' (t @ '','' @ p1 @ '','' @ p2 @ extra) = t # p1 # p2 # more"
    using py_split_char_append [of "CHR '',''" t "p1 @ '','' @ p2 @ extra"]
      py_split_char_append [of "CHR '',''" p1 "p2 @ extra"] t u m
    by (simp add: py_split_char_absent)
  have ex2: "\<exists>more'. py_split ''='' (rating @ junk) = rating # more'"
  proof (cases junk)
    case Nil
    with r show ?thesis by (simp add: py_split_char_absent)
  next
    case (Cons x rest)
    with j have "x = CHR ''=''" by simp
    with Cons r show ?thesis
      using py_split_char_append [of "CHR ''=''" rating rest] by (simp add: py_split_char_absent)
  qed
  then obtain more' where m': "py_split ''='' (rating @ junk) = rating # more'" ..
  have mr: "py_split ''='' p2 = left # rating # more'"
    using py_split_char_append [of "CHR ''=''" left "rating @ junk"] l(1) m' p2(1)
    by (simp add: py_split_char_absent)
  have seg: "py_index (py_split ''/'' left) (- 1) = Inr movieid"
    using py_index_last [OF py_split_nonempty, of "''/''" left]
      last_segment [of "CHR ''/''" movieid dir] l by simp
  have i0: "py_index (left # rating # more') 0 = Inr left" by (rule py_index_0)
  have i1: "py_index (left # rating # more') 1 = Inr rating" by (rule py_index_1)
  show ?thesis
    unfolding parse_rating_def Let_def parts
    by (simp add: py_index_0 py_index_1 py_index_2 u(2) exn_bind_def mr i0 i1 seg
        del: py_split.simps)
qed

theorem rating_extra_content_dropped_witness:
  "CHR '','' \<notin> set ''2023-08-01T10:17:00'' \<and> py_int ''42'' = Inr 42 \<and>
   parse_rating ''2023-08-01T10:17:00,42,/data/m/Inception=4=5,extra,more'' =
     ([], Inr (Some [(''time'', StrV ''2023-08-01T10:17:00''), (''userid'', IntV 42),
                     (''movieid'', StrV ''Inception''), (''rating'', StrV ''4'')]))"
proof -
  have "parse_rating (''2023-08-01T10:17:00'' @ '','' @ ''42'' @ '','' @ ''/data/m/Inception=4=5'' @ '',extra,more'') =
     ([], Inr (Some [(''time'', StrV ''2023-08-01T10:17:00''), (''userid'', IntV 42),
                     (''movieid'', StrV ''Inception''), (''rating'', StrV ''4'')]))"
    by (rule rating_extra_content_dropped [where left = "''/data/m/Inception''" and junk = "''=5''"
          and dir = "''/data/m/''"]) (simp_all add: py_int_42)
  then show ?thesis by (simp add: py_int_42)
qed

text \<open>
  C10, as stated, fails: a line with four comma-separated parts whose third part has no
  \<^verbatim>\<open>"="\<close> raises \<^verbatim>\<open>IndexError\<close>, and a line with two \<^verbatim>\<open>"="\<close> in its third part and a
  non-numeric user id raises \<^verbatim>\<open>ValueError\<close>; neither returns a record.
\<close>

theorem rating_extra_parts_counterexample:
  "length (py_split '','' ''2023-08-01T10:17:00,42,/data/m/Inception,4'') = 4 \<and>
   parse_rating ''2023-08-01T10:17:00,42,/data/m/Inception,4'' = ([], Inl IndexError) \<and>
   length (py_split ''='' ''/data/m/Inception=4=5'') = 3 \<and>
   parse_rating ''2023-08-01T10:17:00,abc,/data/m/Inception=4=5'' = ([], Inl ValueError)"
proof -
  have a: "py_split '','' ''2023-08-01T10:17:00,42,/data/m/Inception,4'' =
     [''2023-08-01T10:17:00'', ''42'', ''/data/m/Inception'', ''4'']" by code_simp
  have b: "parse_rating ''2023-08-01T10:17:00,42,/data/m/Inception,4'' = ([], Inl IndexError)" by code_simp
  have c: "py_split ''='' ''/data/m/Inception=4=5'' = [''/data/m/Inception'', ''4'', ''5'']" by code_simp
  have d: "parse_rating ''2023-08-01T10:17:00,abc,/data/m/Inception=4=5'' = ([], Inl ValueError)" by code_simp
  show ?thesis unfolding a c using b d by simp
qed

section \<open>The backtracking matcher finds exactly the matches\<close>

lemma fits_Nil [simp]: "fits [] ps \<longleftrightarrow> ps = []"
  by (simp add: fits_def)

lemma fits_Cons [simp]: "fits (it # its) ps \<longleftrightarrow> (\<exists>p ps'. ps = p # ps' \<and> piece_ok it p \<and> fits its ps')"
  by (auto simp: fits_def list_all2_Cons1)

lemma fits_grow:
  "fits (Rep c (n - 1) g # its) rs \<Longrightarrow> cmatch c x \<Longrightarrow> fits (Rep c n g # its) (grow x rs)"
  by auto

lemma concat_grow: "rs \<noteq> [] \<Longrightarrow> concat (grow x rs) = x # concat rs"
  by (cases rs) auto

lemma match_here_sound:
  "match_here its s = Some ps \<Longrightarrow> fits its ps \<and> (\<exists>rest. s = concat ps @ rest)"
proof (induction its s arbitrary: ps rule: match_here.induct)
  case (1 s)
  then show ?case by simp
next
  case (2 c its s)
  then show ?case by (auto split: list.splits if_splits)
next
  case (3 its s)
  then show ?case by auto
next
  case (4 its s)
  then show ?case by auto
next
  case (5 c n its s)
  show ?case
  proof (cases "case s of [] \<Rightarrow> None | x # xs \<Rightarrow>
      if cmatch c x then map_option (grow x) (match_here (Rep c (n - 1) True # its) xs) else None")
    case None
    from "5.prems" have "(case (case s of
              [] \<Rightarrow> None
            | x # xs \<Rightarrow>
                if cmatch c x
                then map_option (grow x) (match_here (Rep c (n - 1) True # its) xs)
                else None) of
        Some ps \<Rightarrow> Some ps
      | None \<Rightarrow> if n = 0 then map_option (Cons []) (match_here its s) else None) = Some ps"
      by (subst (asm) match_here.simps)
    then have "(if n = 0 then map_option (Cons []) (match_here its s) else None) = Some ps"
      by (simp only: None option.case)
    then have n: "n = 0" and m: "map_option (Cons []) (match_here its s) = Some ps"
      by (auto split: if_splits)
    then obtain rs where rs: "match_here its s = Some rs" "ps = [] # rs" by auto
    from "5.IH"(2) [OF None n rs(1)] rs n show ?thesis by auto
  next
    case (Some qs)
    from "5.prems" have "(case (case s of
              [] \<Rightarrow> None
            | x # xs \<Rightarrow>
                if cmatch c x
                then map_option (grow x) (match_here (Rep c (n - 1) True # its) xs)
                else None) of
        Some ps \<Rightarrow> Some ps
      | None \<Rightarrow> if n = 0 then map_option (Cons []) (match_here its s) else None) = Some ps"
      by (subst (asm) match_here.simps)
    then have ps: "ps = qs" by (simp only: Some option.case option.inject)
    from Some obtain x xs rs where s: "s = x # xs" and cx: "cmatch c x"
      and rs: "match_here (Rep c (n - 1) True # its) xs = Some rs" and qs: "qs = grow x rs"
      by (auto simp del: match_here.simps split: list.splits if_splits)
    from "5.IH"(1) [OF s cx rs] have f: "fits (Rep c (n - 1) True # its) rs"
      and r: "\<exists>rest. xs = concat rs @ rest" by auto
    from f have ne: "rs \<noteq> []" by auto
    from fits_grow [OF f cx] r s ps qs concat_grow [OF ne, of x] show ?thesis by auto
  qed
next
  case (6 c n its s)
  show ?case
  proof (cases "if n = 0 then map_option (Cons []) (match_here its s) else None")
    case (Some qs)
    from "6.prems" have "(case (if n = 0 then map_option (Cons []) (match_here its s) else None) of
           Some ps \<Rightarrow> Some ps
         | None \<Rightarrow>
             (case s of
                [] \<Rightarrow> None
              | x # xs \<Rightarrow>
                  if cmatch c x
                  then map_option (grow x) (match_here (Rep c (n - 1) False # its) xs)
                  else None)) = Some ps"
      by (subst (asm) match_here.simps)
    then have ps: "ps = qs" by (simp only: Some option.case option.inject)
    from Some have n: "n = 0" by (auto split: if_splits)
    with Some obtain rs where rs: "match_here its s = Some rs" "qs = [] # rs" by auto
    from "6.IH"(1) [OF n rs(1)] rs n ps show ?thesis by auto
  next
    case None
    from "6.prems" have "(case (if n = 0 then map_option (Cons []) (match_here its s) else None) of
           Some ps \<Rightarrow> Some ps
         | None \<Rightarrow>
             (case s of
                [] \<Rightarrow> None
              | x # xs \<Rightarrow>
                  if cmatch c x
                  then map_option (grow x) (match_here (Rep c (n - 1) False # its) xs)
                  else None)) = Some ps"
      by (subst (asm) match_here.simps)
    with None obtain x xs rs where s: "s = x # xs" and cx: "cmatch c x"
      and rs: "match_here (Rep c (n - 1) False # its) xs = Some rs" and ps: "ps = grow x rs"
      by (auto simp del: match_here.simps split: list.splits if_splits)
    from "6.IH"(2) [OF None s cx rs] have f: "fits (Rep c (n - 1) False # its) rs"
      and r: "\<exists>rest. xs = concat rs @ rest" by auto
    from f have ne: "rs \<noteq> []" by auto
    from fits_grow [OF f cx] r s ps concat_grow [OF ne, of x] show ?thesis by auto
  qed
qed

lemma match_here_complete:
  "fits its ps \<Longrightarrow> s = concat ps @ rest \<Longrightarrow> match_here its s \<noteq> None"
proof (induction its s arbitrary: ps rest rule: match_here.induct)
  case (1 s)
  then show ?case by simp
next
  case (2 c its s)
  from "2.prems" obtain x ps' where ps: "ps = [x] # ps'" and cx: "cmatch c x" and f: "fits its ps'"
    by (auto simp: length_Suc_conv)
  from ps "2.prems"(2) have s: "s = x # (concat ps' @ rest)" by simp
  from "2.IH" [OF s cx f refl] s cx show ?case by simp
next
  case (3 its s)
  then show ?case by auto
next
  case (4 its s)
  then show ?case by auto
next
  case (5 c n its s)
  from "5.prems" obtain p ps' where ps: "ps = p # ps'" and n: "n \<le> length p"
    and all: "list_all (cmatch c) p" and f: "fits its ps'" by auto
  show ?case
  proof (cases "case s of [] \<Rightarrow> None | x # xs \<Rightarrow>
      if cmatch c x then map_option (grow x) (match_here (Rep c (n - 1) True # its) xs) else None")
    case (Some a)
    show ?thesis
      by (subst match_here.simps) (simp only: Some option.case option.distinct not_False_eq_True)
  next
    case None
    show ?thesis
    proof (cases p)
      case Nil
      with n have n0: "n = 0" by simp
      from Nil ps "5.prems"(2) have s: "s = concat ps' @ rest" by simp
      from "5.IH"(2) [OF None n0 f s] obtain r where r: "match_here its s = Some r" by auto
      show ?thesis
        apply (subst match_here.simps)
        apply (simp only: None option.case)
        apply (simp only: n0 r if_True option.map option.distinct not_False_eq_True simp_thms)
        done
    next
      case (Cons x p')
      with all have cx: "cmatch c x" by simp
      have f': "fits (Rep c (n - 1) True # its) (p' # ps')"
        using n all f Cons by auto
      have s: "s = x # (concat (p' # ps') @ rest)"
        using ps Cons "5.prems"(2) by simp
      from "5.IH"(1) [OF s cx f' refl]
      obtain r where "match_here (Rep c (n - 1) True # its) (concat (p' # ps') @ rest) = Some r"
        by auto
      with None s cx have False by (simp del: concat.simps match_here.simps)
      then show ?thesis ..
    qed
  qed
next
  case (6 c n its s)
  from "6.prems" obtain p ps' where ps: "ps = p # ps'" and n: "n \<le> length p"
    and all: "list_all (cmatch c) p" and f: "fits its ps'" by auto
  show ?case
  proof (cases "if n = 0 then map_option (Cons []) (match_here its s) else None")
    case (Some a)
    show ?thesis
      by (subst match_here.simps) (simp only: Some option.case option.distinct not_False_eq_True)
  next
    case None
    show ?thesis
    proof (cases p)
      case Nil
      with n have n0: "n = 0" by simp
      from Nil ps "6.prems"(2) have s: "s = concat ps' @ rest" by simp
      from "6.IH"(1) [OF n0 f s] obtain r where r: "match_here its s = Some r" by auto
      with None n0 have False by simp
      then show ?thesis ..
    next
      case (Cons x p')
      with all have cx: "cmatch c x" by simp
      have f': "fits (Rep c (n - 1) False # its) (p' # ps')"
        using n all f Cons by auto
      have s: "s = x # (concat (p' # ps') @ rest)"
        using ps Cons "6.prems"(2) by simp
      from "6.IH"(2) [OF None s cx f' refl]
      obtain r where r: "match_here (Rep c (n - 1) False # its) (concat (p' # ps') @ rest) = Some r"
        by auto
      show ?thesis
        apply (subst match_here.simps)
        apply (simp only: None option.case)
        apply (simp only: s list.case cx if_True r option.map option.distinct not_False_eq_True
            simp_thms)
        done
    qed
  qed
qed

lemma search_of_match: "match_here its s \<noteq> None \<Longrightarrow> re_search_pieces its s \<noteq> None"
  by (cases s) auto

lemma search_sound:
  "re_search_pieces its s = Some ps \<Longrightarrow> fits its ps \<and> (\<exists>pre post. s = pre @ concat ps @ post)"
proof (induction s)
  case Nil
  then show ?case using match_here_sound [of its "[]" ps] by auto
next
  case (Cons c cs)
  show ?case
  proof (cases "match_here its (c # cs)")
    case None
    with Cons.prems have "re_search_pieces its cs = Some ps" by simp
    from Cons.IH [OF this] obtain pre post where "fits its ps" "cs = pre @ concat ps @ post" by auto
    then have "fits its ps \<and> c # cs = (c # pre) @ concat ps @ post" by simp
    then show ?thesis by blast
  next
    case (Some qs)
    with Cons.prems have "qs = ps" by simp
    with Some match_here_sound [of its "c # cs" ps] obtain rest where
      "fits its ps" "c # cs = [] @ concat ps @ rest" by auto
    then show ?thesis by blast
  qed
qed

lemma search_complete:
  "fits its ps \<Longrightarrow> re_search_pieces its (pre @ concat ps @ post) \<noteq> None"
proof (induction pre)
  case Nil
  from match_here_complete [OF Nil refl, of post] show ?case
    by (simp add: search_of_match)
next
  case (Cons c pre)
  then show ?case by (auto split: option.splits)
qed

lemma fits_length: "fits its ps \<Longrightarrow> length ps = length its"
  by (simp add: fits_def list_all2_lengthD)

lemma fits_append:
  "fits (a @ b) ps \<longleftrightarrow> (\<exists>pa pb. ps = pa @ pb \<and> fits a pa \<and> fits b pb)"
  unfolding fits_def
  by (metis list_all2_append1 list_all2_lengthD)

lemma fits_lit: "fits (lit l) ps \<longleftrightarrow> ps = map (\<lambda>c. [c]) l"
proof (induction l arbitrary: ps)
  case Nil
  show ?case by (simp add: lit_def)
next
  case (Cons a l)
  from Cons [unfolded lit_def] show ?case
    by (auto simp: lit_def length_Suc_conv)
qed

lemma concat_singletons: "concat (map (\<lambda>c. [c]) l) = l"
  by (induction l) auto

lemma fits_grp: "fits (grp g) ps \<longleftrightarrow> (\<exists>qs. ps = [] # qs @ [[]] \<and> fits g qs)"
  by (auto simp: grp_def fits_append)

lemma plain_lit: "plain (lit l)"
  by (auto simp: plain_def lit_def)

lemma groups_plain:
  "plain a \<Longrightarrow> length pa = length a \<Longrightarrow>
   groups (a @ its) (pa @ ps) cur = groups its ps (map_option (\<lambda>g. g @ concat pa) cur)"
proof (induction a arbitrary: pa cur)
  case Nil
  then show ?case by (cases cur) auto
next
  case (Cons it a)
  then obtain p pa' where pa: "pa = p # pa'" "length pa' = length a"
    by (cases pa) auto
  from Cons.prems have pl: "plain a" and it: "it \<noteq> Open" "it \<noteq> Close"
    by (auto simp: plain_def)
  have "groups ((it # a) @ its) (pa @ ps) cur =
        groups (a @ its) (pa' @ ps) (map_option (\<lambda>g. g @ p) cur)"
    using it pa by (cases it) auto
  also have "\<dots> = groups its ps (map_option (\<lambda>g. g @ concat pa') (map_option (\<lambda>g. g @ p) cur))"
    by (rule Cons.IH [OF pl pa(2)])
  finally show ?case using pa by (cases cur) auto
qed

lemma groups_lit:
  "fits (lit l) pa \<Longrightarrow> groups (lit l @ its) (pa @ ps) None = groups its ps None"
  using groups_plain [OF plain_lit, of pa l its ps None] by (simp add: fits_length)

lemma groups_grp:
  assumes "plain g" "fits g qs"
  shows "groups (grp g @ its) (([] # qs @ [[]]) @ ps) cur = concat qs # groups its ps None"
proof -
  have "groups (grp g @ its) (([] # qs @ [[]]) @ ps) cur =
        groups (g @ Close # its) (qs @ [] # ps) (Some [])"
    by (simp add: grp_def)
  also have "\<dots> = groups (Close # its) ([] # ps) (Some (concat qs))"
    using groups_plain [OF assms(1), of qs "Close # its" "[] # ps" "Some []"] assms(2)
    by (simp add: fits_length)
  finally show ?thesis by simp
qed

lemma fits_rep1: "fits [Rep c n g] qs \<longleftrightarrow> (\<exists>w. qs = [w] \<and> n \<le> length w \<and> list_all (cmatch c) w)"
  by auto

section \<open>The two patterns of the source\<close>

lemma plain_timestamp: "plain timestamp_re"
  by (auto simp: plain_def timestamp_re_def digits_def lit_def)

lemma plain_rep: "plain [Rep c n g]"
  by (simp add: plain_def)

lemma groups_end: "fits (lit l) pa \<Longrightarrow> groups (lit l) pa None = []"
  using groups_lit [of l pa "[]" "[]"] by simp

lemma cmatch_digit: "list_all (cmatch Digit) w = list_all is_digit w"
  by (induction w) auto

lemma cmatch_dot: "list_all (cmatch Dot) w \<longleftrightarrow> CHR 0x0A \<notin> set w"
  by (induction w) auto

lemma movie_watch_fits:
  assumes "fits movie_watch_re ps"
  shows "\<exists>t u m n. groups movie_watch_re ps None = [t, u, m, n] \<and>
           concat ps = t @ '','' @ u @ '',GET /data/m/'' @ m @ ''/'' @ n @ ''.mpg'' \<and>
           matches timestamp_re t \<and> u \<noteq> [] \<and> list_all is_digit u \<and>
           m \<noteq> [] \<and> CHR 0x0A \<notin> set m \<and> n \<noteq> [] \<and> list_all is_digit n"
proof -
  from assms obtain p1 p2 p3 p4 p5 p6 p7 p8 where
    ps: "ps = p1 @ p2 @ p3 @ p4 @ p5 @ p6 @ p7 @ p8"
    and f1: "fits (grp timestamp_re) p1" and f2: "fits (lit '','') p2"
    and f3: "fits (grp [Rep Digit 1 True]) p3" and f4: "fits (lit '',GET /data/m/'') p4"
    and f5: "fits (grp [Rep Dot 1 False]) p5" and f6: "fits (lit ''/'') p6"
    and f7: "fits (grp [Rep Digit 1 True]) p7" and f8: "fits (lit ''.mpg'') p8"
    unfolding movie_watch_re_def fits_append by blast
  from f1 obtain q1 where q1: "p1 = [] # q1 @ [[]]" "fits timestamp_re q1"
    by (auto simp: fits_grp)
  from f3 obtain u where u: "p3 = [] # [u] @ [[]]" "1 \<le> length u" "list_all (cmatch Digit) u"
    by (auto simp: fits_grp)
  from f5 obtain m where m: "p5 = [] # [m] @ [[]]" "1 \<le> length m" "list_all (cmatch Dot) m"
    by (auto simp: fits_grp)
  from f7 obtain n where n: "p7 = [] # [n] @ [[]]" "1 \<le> length n" "list_all (cmatch Digit) n"
    by (auto simp: fits_grp)
  have fu: "fits [Rep Digit 1 True] [u]" and fm: "fits [Rep Dot 1 False] [m]"
    and fn: "fits [Rep Digit 1 True] [n]"
    using u m n by auto
  have g: "groups movie_watch_re ps None = [concat q1, u, m, n]"
    unfolding movie_watch_re_def ps q1(1) u(1) m(1) n(1)
    by (simp only: groups_grp [OF plain_timestamp q1(2)] groups_lit [OF f2]
        groups_grp [OF plain_rep fu] groups_lit [OF f4] groups_grp [OF plain_rep fm]
        groups_lit [OF f6] groups_grp [OF plain_rep fn] groups_end [OF f8])
      simp
  have c: "concat ps = concat q1 @ '','' @ u @ '',GET /data/m/'' @ m @ ''/'' @ n @ ''.mpg''"
    using f2 f4 f6 f8 unfolding ps q1(1) u(1) m(1) n(1)
    by (simp add: fits_lit)
  have t: "matches timestamp_re (concat q1)"
    using q1(2) by (auto simp: matches_def)
  from g c t u m n show ?thesis
    by (auto simp: cmatch_digit cmatch_dot)
qed

lemma not_space_digit: "is_digit c \<Longrightarrow> \<not> is_space c"
  by (auto simp: is_digit_def is_space_def)

lemma strip_digits: "u \<noteq> [] \<Longrightarrow> list_all is_digit u \<Longrightarrow> strip u = u"
proof -
  assume a: "u \<noteq> []" "list_all is_digit u"
  then have "\<not> is_space (hd u)" by (cases u) (auto simp: not_space_digit)
  with a have 1: "dropWhile is_space u = u" by (cases u) auto
  from a have "\<not> is_space (last u)"
    by (metis last_in_set list_all_iff not_space_digit)
  with a have 2: "dropWhile is_space (rev u) = rev u"
    by (cases "rev u") (auto simp: last_rev hd_rev)
  show ?thesis by (simp add: strip_def 1 2)
qed

lemma digits_us_digits: "u \<noteq> [] \<Longrightarrow> list_all is_digit u \<Longrightarrow> digits_us u"
proof (induction u rule: digits_us.induct)
  case 1
  then show ?case by simp
next
  case (2 c)
  then show ?case by simp
next
  case (3 c d cs)
  then have "d \<noteq> CHR ''_''" by (auto simp: is_digit_def)
  with 3 show ?case by auto
qed

section \<open>Text after and before a match\<close>

text \<open>
  From here on the two equations of \<open>match_here\<close> for a repetition are unfolded by hand
  only, through the lemmas below.
\<close>

declare match_here.simps(5,6) [simp del]

lemma match_ones:
  "match_here (map One cs @ its) s =
     (if length cs \<le> length s \<and> list_all2 cmatch cs (take (length cs) s)
      then map_option ((@) (map (\<lambda>c. [c]) (take (length cs) s))) (match_here its (drop (length cs) s))
      else None)"
proof (induction cs arbitrary: s)
  case Nil
  show ?case by (cases "match_here its s") simp_all
next
  case (Cons c cs)
  show ?case
  proof (cases s)
    case Nil
    then show ?thesis by simp
  next
    case (Cons x xs)
    show ?thesis
      by (simp add: Cons Cons.IH option.map_comp comp_def)
  qed
qed

lemma lit_ones: "lit l = map One (map Lit l)"
  by (simp add: lit_def)

lemma cmatch_lits: "list_all2 cmatch (map Lit l) w \<longleftrightarrow> w = l"
proof (induction l arbitrary: w)
  case Nil
  show ?case by simp
next
  case (Cons a l)
  then show ?case by (cases w) auto
qed

lemma match_lit:
  "match_here (lit l @ its) s =
     (if prefix l s
      then map_option ((@) (map (\<lambda>c. [c]) l)) (match_here its (drop (length l) s))
      else None)"
proof -
  have "length l \<le> length s \<and> take (length l) s = l \<longleftrightarrow> prefix l s"
    by (metis prefix_def append_eq_conv_conj append_take_drop_id length_append le_add1 take_is_prefix prefix_length_le)
  then show ?thesis
    unfolding lit_ones match_ones by (auto simp: cmatch_lits)
qed

lemma greedy_unfold:
  "match_here (Rep c n True # its) (x # xs) =
     (case (if cmatch c x then map_option (grow x) (match_here (Rep c (n - 1) True # its) xs) else None) of
        Some ps \<Rightarrow> Some ps
      | None \<Rightarrow> if n = 0 then map_option (Cons []) (match_here its (x # xs)) else None)"
  by (subst match_here.simps) simp

lemma greedy_nil:
  "match_here (Rep c n True # its) [] = (if n = 0 then map_option (Cons []) (match_here its []) else None)"
  by (subst match_here.simps) simp

lemma lazy_unfold:
  "match_here (Rep c n False # its) (x # xs) =
     (case (if n = 0 then map_option (Cons []) (match_here its (x # xs)) else None) of
        Some ps \<Rightarrow> Some ps
      | None \<Rightarrow> if cmatch c x then map_option (grow x) (match_here (Rep c (n - 1) False # its) xs) else None)"
  by (subst match_here.simps) (auto split: option.splits)

lemma lazy_nil:
  "match_here (Rep c n False # its) [] = (if n = 0 then map_option (Cons []) (match_here its []) else None)"
  by (subst match_here.simps) (simp split: option.splits)

lemma greedy_success:
  "list_all (cmatch c) u \<Longrightarrow> n \<le> length u \<Longrightarrow> r = [] \<or> \<not> cmatch c (hd r) \<Longrightarrow>
   match_here its r = Some ps' \<Longrightarrow> match_here (Rep c n True # its) (u @ r) = Some (u # ps')"
proof (induction u arbitrary: n)
  case Nil
  then show ?case by (cases r) (auto simp: greedy_unfold greedy_nil)
next
  case (Cons x u)
  from Cons.prems have "n - 1 \<le> length u" by simp
  from Cons.IH [OF _ this Cons.prems(3,4)] Cons.prems(1)
  have "match_here (Rep c (n - 1) True # its) (u @ r) = Some (u # ps')" by simp
  with Cons.prems(1) show ?case by (simp add: greedy_unfold)
qed

lemma greedy_inv:
  "match_here (Rep c n True # its) s = Some qs \<Longrightarrow>
   \<exists>p ps' r. qs = p # ps' \<and> s = p @ r \<and> n \<le> length p \<and> list_all (cmatch c) p \<and>
      match_here its r = Some ps'"
proof (induction s arbitrary: n qs)
  case Nil
  then show ?case by (auto simp: greedy_nil split: if_splits)
next
  case (Cons x xs)
  show ?case
  proof (cases "if cmatch c x then map_option (grow x) (match_here (Rep c (n - 1) True # its) xs) else None")
    case None
    with Cons.prems have "n = 0" "map_option (Cons []) (match_here its (x # xs)) = Some qs"
      by (auto simp: greedy_unfold split: if_splits)
    then show ?thesis by auto
  next
    case (Some a)
    with Cons.prems have qa: "qs = a" by (simp add: greedy_unfold)
    from Some obtain rs where cx: "cmatch c x"
      and rs: "match_here (Rep c (n - 1) True # its) xs = Some rs" and a: "a = grow x rs"
      by (auto split: if_splits)
    from Cons.IH [OF rs] obtain p ps' r where
      "rs = p # ps'" "xs = p @ r" "n - 1 \<le> length p" "list_all (cmatch c) p"
      "match_here its r = Some ps'" by blast
    with cx qa a have "qs = (x # p) # ps' \<and> x # xs = (x # p) @ r \<and> n \<le> length (x # p) \<and>
        list_all (cmatch c) (x # p) \<and> match_here its r = Some ps'" by auto
    then show ?thesis by blast
  qed
qed

lemma lazy_success:
  "list_all (cmatch c) p \<Longrightarrow> n \<le> length p \<Longrightarrow> match_here its r = Some ps' \<Longrightarrow>
   (\<And>k. n \<le> k \<Longrightarrow> k < length p \<Longrightarrow> match_here its (drop k p @ r) = None) \<Longrightarrow>
   match_here (Rep c n False # its) (p @ r) = Some (p # ps')"
proof (induction p arbitrary: n)
  case Nil
  then show ?case by (cases r) (auto simp: lazy_unfold lazy_nil)
next
  case (Cons x p)
  have stop: "(if n = 0 then map_option (Cons []) (match_here its (x # p @ r)) else None) = None"
    using Cons.prems(4) [of 0] by auto
  have "match_here (Rep c (n - 1) False # its) (p @ r) = Some (p # ps')"
  proof (rule Cons.IH)
    show "list_all (cmatch c) p" using Cons.prems(1) by simp
    show "n - 1 \<le> length p" using Cons.prems(2) by simp
    show "match_here its r = Some ps'" by (rule Cons.prems(3))
    fix k assume "n - 1 \<le> k" "k < length p"
    then show "match_here its (drop k p @ r) = None"
      using Cons.prems(4) [of "Suc k"] by simp
  qed
  moreover have cx: "cmatch c x" using Cons.prems(1) by simp
  ultimately show ?case
    unfolding append_Cons lazy_unfold
    by (simp only: stop option.case if_True option.map grow.simps)
qed

lemma lazy_inv:
  "match_here (Rep c n False # its) s = Some qs \<Longrightarrow>
   \<exists>p ps' r. qs = p # ps' \<and> s = p @ r \<and> n \<le> length p \<and> list_all (cmatch c) p \<and>
      match_here its r = Some ps' \<and>
      (\<forall>k. n \<le> k \<and> k < length p \<longrightarrow> match_here its (drop k p @ r) = None)"
proof (induction s arbitrary: n qs)
  case Nil
  then show ?case by (auto simp: lazy_nil split: if_splits)
next
  case (Cons x xs)
  show ?case
  proof (cases "if n = 0 then map_option (Cons []) (match_here its (x # xs)) else None")
    case (Some a)
    with Cons.prems have "qs = a" by (simp add: lazy_unfold)
    with Some obtain ps' where "n = 0" "match_here its (x # xs) = Some ps'" "qs = [] # ps'"
      by (auto split: if_splits)
    then have "qs = [] # ps' \<and> x # xs = [] @ (x # xs) \<and> n \<le> length ([]::string) \<and>
       list_all (cmatch c) [] \<and> match_here its (x # xs) = Some ps' \<and>
       (\<forall>k. n \<le> k \<and> k < length ([]::string) \<longrightarrow> match_here its (drop k [] @ (x # xs)) = None)"
      by simp
    then show ?thesis by blast
  next
    case None
    with Cons.prems obtain rs where cx: "cmatch c x"
      and rs: "match_here (Rep c (n - 1) False # its) xs = Some rs" and q: "qs = grow x rs"
      by (auto simp: lazy_unfold split: if_splits)
    from Cons.IH [OF rs] obtain p ps' r where
      a: "rs = p # ps'" "xs = p @ r" "n - 1 \<le> length p" "list_all (cmatch c) p"
      "match_here its r = Some ps'"
      and b: "\<forall>k. n - 1 \<le> k \<and> k < length p \<longrightarrow> match_here its (drop k p @ r) = None"
      by blast
    have "\<forall>k. n \<le> k \<and> k < length (x # p) \<longrightarrow> match_here its (drop k (x # p) @ r) = None"
    proof (intro allI impI)
      fix k assume k: "n \<le> k \<and> k < length (x # p)"
      show "match_here its (drop k (x # p) @ r) = None"
      proof (cases k)
        case 0
        with k None a(2) show ?thesis by (auto split: if_splits)
      next
        case (Suc j)
        with k have "n - 1 \<le> j \<and> j < length p" by auto
        with b have "match_here its (drop j p @ r) = None" by blast
        with Suc show ?thesis by simp
      qed
    qed
    with a cx q have "qs = (x # p) # ps' \<and> x # xs = (x # p) @ r \<and> n \<le> length (x # p) \<and>
        list_all (cmatch c) (x # p) \<and> match_here its r = Some ps' \<and>
        (\<forall>k. n \<le> k \<and> k < length (x # p) \<longrightarrow> match_here its (drop k (x # p) @ r) = None)"
      by auto
    then show ?thesis by blast
  qed
qed

subsection \<open>When appended text leaves a match as it is\<close>

lemma stable_Nil: "stable y []"
  by (simp add: stable_def)

lemma stable_ones: "stable y its \<Longrightarrow> stable y (map One cs @ its)"
  unfolding stable_def match_ones
  by (auto split: if_splits)

lemma stable_lit: "stable y its \<Longrightarrow> stable y (lit l @ its)"
  unfolding lit_ones by (rule stable_ones)

lemma stable_Open: "stable y its \<Longrightarrow> stable y (Open # its)"
  by (auto simp: stable_def)

lemma stable_Close: "stable y its \<Longrightarrow> stable y (Close # its)"
  by (auto simp: stable_def)

lemma stable_greedy:
  assumes "stable y its"
    and "\<And>r ps. match_here its r = Some ps \<Longrightarrow> r \<noteq> [] \<and> \<not> cmatch c (hd r)"
  shows "stable y (Rep c n True # its)"
  unfolding stable_def
proof (intro allI impI)
  fix s qs assume "match_here (Rep c n True # its) s = Some qs"
  from greedy_inv [OF this] obtain p ps' r where
    a: "qs = p # ps'" "s = p @ r" "n \<le> length p" "list_all (cmatch c) p"
    "match_here its r = Some ps'" by blast
  from assms(2) [OF a(5)] have r: "r \<noteq> []" "\<not> cmatch c (hd r)" by auto
  from assms(1) a(5) have "match_here its (r @ y) = Some ps'" by (simp add: stable_def)
  moreover from r have "r @ y = [] \<or> \<not> cmatch c (hd (r @ y))" by simp
  ultimately have "match_here (Rep c n True # its) (p @ (r @ y)) = Some (p # ps')"
    using a(3,4) by (intro greedy_success)
  with a show "match_here (Rep c n True # its) (s @ y) = Some qs" by simp
qed

lemma stable_lazy:
  assumes "stable y its"
    and "\<And>a r ps. a \<noteq> [] \<Longrightarrow> list_all (cmatch c) a \<Longrightarrow> match_here its r = Some ps \<Longrightarrow>
           match_here its (a @ r) = None \<Longrightarrow> match_here its (a @ r @ y) = None"
  shows "stable y (Rep c n False # its)"
  unfolding stable_def
proof (intro allI impI)
  fix s qs assume "match_here (Rep c n False # its) s = Some qs"
  from lazy_inv [OF this] obtain p ps' r where
    a: "qs = p # ps'" "s = p @ r" "n \<le> length p" "list_all (cmatch c) p"
    "match_here its r = Some ps'"
    and b: "\<forall>k. n \<le> k \<and> k < length p \<longrightarrow> match_here its (drop k p @ r) = None" by blast
  from assms(1) a(5) have ry: "match_here its (r @ y) = Some ps'" by (simp add: stable_def)
  have "match_here (Rep c n False # its) (p @ (r @ y)) = Some (p # ps')"
  proof (rule lazy_success [OF a(4,3) ry])
    fix k assume k: "n \<le> k" "k < length p"
    then have 1: "drop k p \<noteq> []" by simp
    have 2: "list_all (cmatch c) (drop k p)"
      using a(4) by (metis append_take_drop_id list_all_append)
    from k b have 3: "match_here its (drop k p @ r) = None" by blast
    from assms(2) [OF 1 2 a(5) 3] show "match_here its (drop k p @ r @ y) = None" .
  qed
  with a show "match_here (Rep c n False # its) (s @ y) = Some qs" by simp
qed

lemma starts_with_lit:
  "match_here (Close # lit (a # l) @ its) r = Some ps \<Longrightarrow> r \<noteq> [] \<and> hd r = a"
  by (auto simp: match_lit prefix_def split: if_splits)

lemma starts_with_lit_plain:
  "match_here (lit (a # l) @ its) r = Some ps \<Longrightarrow> r \<noteq> [] \<and> hd r = a"
  by (auto simp: match_lit prefix_def split: if_splits)

lemma stable_lit_end: "stable y (lit l)"
  using stable_lit [OF stable_Nil, of y l] by simp

lemma prefix_shorter: "prefix l (s @ y) \<Longrightarrow> length l \<le> length s \<Longrightarrow> prefix l s"
  using prefix_length_prefix [of l "s @ y" s] by simp

lemma rep_prepend:
  assumes "list_all (cmatch c) w" "match_here (Rep c n g # its) r \<noteq> None"
  shows "match_here (Rep c n g # its) (w @ r) \<noteq> None"
proof -
  from assms(2) obtain qs where "match_here (Rep c n g # its) r = Some qs" by auto
  from match_here_sound [OF this] obtain rest where
    f: "fits (Rep c n g # its) qs" and r: "r = concat qs @ rest" by auto
  from f obtain p ps' where q: "qs = p # ps'" "n \<le> length p" "list_all (cmatch c) p" "fits its ps'"
    by auto
  with assms(1) have "fits (Rep c n g # its) ((w @ p) # ps')" by auto
  from match_here_complete [OF this, of "w @ r" rest] r q(1) show ?thesis by simp
qed

lemma tail_shape:
  assumes "match_here (Close # lit (b # l1) @ Open # Rep Digit 1 True # Close # lit l2) x = Some qs"
  shows "\<exists>d rest. x = (b # l1) @ d @ l2 @ rest \<and> d \<noteq> [] \<and> list_all is_digit d"
proof -
  from match_here_sound [OF assms] obtain rest where
    f: "fits (Close # lit (b # l1) @ Open # Rep Digit 1 True # Close # lit l2) qs"
    and x: "x = concat qs @ rest" by auto
  from f obtain pa pb where qs: "qs = [] # pa @ pb" and pa: "fits (lit (b # l1)) pa"
    and pb: "fits (Open # Rep Digit 1 True # Close # lit l2) pb"
    by (auto simp: fits_append)
  from pb obtain d where d: "pb = [] # d # [] # map (\<lambda>c. [c]) l2" "1 \<le> length d" "list_all (cmatch Digit) d"
    by (auto simp: fits_lit)
  from pa have "concat pa = b # l1" by (simp add: fits_lit concat_singletons del: list.map)
  with x qs d have "x = (b # l1) @ d @ l2 @ rest \<and> d \<noteq> [] \<and> list_all is_digit d"
    by (auto simp: concat_singletons cmatch_digit)
  then show ?thesis by blast
qed

lemma tail_complete:
  assumes "d \<noteq> []" "list_all is_digit d"
  shows "match_here (Close # lit (b # l1) @ Open # Rep Digit 1 True # Close # lit l2)
           ((b # l1) @ d @ l2 @ rest) \<noteq> None"
proof -
  let ?qs = "[] # map (\<lambda>c. [c]) (b # l1) @ [] # d # [] # map (\<lambda>c. [c]) l2"
  have 1: "fits (lit (b # l1)) (map (\<lambda>c. [c]) (b # l1))" by (simp only: fits_lit)
  have 2: "fits (lit l2) (map (\<lambda>c. [c]) l2)" by (simp only: fits_lit)
  from assms 2 have 3: "fits (Open # Rep Digit 1 True # Close # lit l2) ([] # d # [] # map (\<lambda>c. [c]) l2)"
    by (cases d) (auto simp: cmatch_digit)
  from 1 3 have "fits (lit (b # l1) @ Open # Rep Digit 1 True # Close # lit l2)
      (map (\<lambda>c. [c]) (b # l1) @ [] # d # [] # map (\<lambda>c. [c]) l2)"
    unfolding fits_append by blast
  then have f: "fits (Close # lit (b # l1) @ Open # Rep Digit 1 True # Close # lit l2) ?qs"
    by simp
  have c: "concat ?qs = (b # l1) @ d @ l2"
    using concat_singletons [of "b # l1"] concat_singletons [of l2] by simp
  from match_here_complete [OF f, of "(b # l1) @ d @ l2 @ rest" rest] c show ?thesis by simp
qed

lemma tail_side:
  assumes a: "a \<noteq> []" and b: "b \<notin> set l1" "b \<notin> set l2" "\<not> is_digit b"
    and r: "match_here (Close # lit (b # l1) @ Open # Rep Digit 1 True # Close # lit l2) r = Some ps"
    and n: "match_here (Close # lit (b # l1) @ Open # Rep Digit 1 True # Close # lit l2) (a @ r) = None"
  shows "match_here (Close # lit (b # l1) @ Open # Rep Digit 1 True # Close # lit l2) (a @ r @ y) = None"
proof (rule ccontr)
  assume "match_here (Close # lit (b # l1) @ Open # Rep Digit 1 True # Close # lit l2) (a @ r @ y) \<noteq> None"
  then obtain qs where
    "match_here (Close # lit (b # l1) @ Open # Rep Digit 1 True # Close # lit l2) (a @ r @ y) = Some qs"
    by auto
  from tail_shape [OF this] obtain d rest where
    x: "a @ r @ y = (b # l1) @ d @ l2 @ rest" and d: "d \<noteq> []" "list_all is_digit d" by blast
  from tail_shape [OF r] obtain r' where r': "r = b # r'" by auto
  from a x obtain a' where a': "a = b # a'" by (cases a) auto
  from x a' r' have "a' @ (b # r' @ y) = (l1 @ d @ l2) @ rest" by simp
  then obtain us where us: "a' = (l1 @ d @ l2) @ us \<or> a' @ us = l1 @ d @ l2 \<and> b # r' @ y = us @ rest"
    unfolding append_eq_append_conv2 by blast
  have inside: False if "a' = (l1 @ d @ l2) @ vs" for vs
  proof -
    from that a' have "a @ r = (b # l1) @ d @ l2 @ (vs @ r)" by simp
    with tail_complete [OF d, of b l1 l2 "vs @ r"] n show False by simp
  qed
  from us show False
  proof
    assume "a' = (l1 @ d @ l2) @ us"
    then show False by (rule inside)
  next
    assume u: "a' @ us = l1 @ d @ l2 \<and> b # r' @ y = us @ rest"
    show False
    proof (cases us)
      case Nil
      with u have "a' = (l1 @ d @ l2) @ []" by simp
      then show False by (rule inside)
    next
      case (Cons u0 us')
      with u have "u0 = b" by simp
      with Cons have "b \<in> set (a' @ us)" by simp
      moreover from u have "a' @ us = l1 @ d @ l2" by simp
      ultimately have "b \<in> set (l1 @ d @ l2)" by simp
      with b d(2) show False by (auto simp: list_all_iff)
    qed
  qed
qed

lemma lazy_lit_side:
  assumes a: "list_all (cmatch c) a" and l: "list_all (cmatch c) l"
    and r: "match_here (Close # lit l @ Open # Rep c n g # its) r = Some ps"
    and n: "match_here (Close # lit l @ Open # Rep c n g # its) (a @ r) = None"
  shows "match_here (Close # lit l @ Open # Rep c n g # its) (a @ r @ y) = None"
proof (rule ccontr)
  assume "match_here (Close # lit l @ Open # Rep c n g # its) (a @ r @ y) \<noteq> None"
  then have p: "prefix l ((a @ r) @ y)"
    by (auto simp: match_lit split: if_splits)
  from r have pr: "prefix l r" and m: "match_here (Rep c n g # its) (drop (length l) r) \<noteq> None"
    by (auto simp: match_lit split: if_splits)
  from pr obtain r0 where r0: "r = l @ r0" by (auto simp: prefix_def)
  from pr have "length l \<le> length (a @ r)" by (auto simp: prefix_def)
  from prefix_shorter [OF p this] have pa: "prefix l (a @ r)" .
  have d: "drop (length l) (a @ r) = drop (length l) (a @ l) @ r0"
    by (simp add: r0)
  have "set (drop (length l) (a @ l)) \<subseteq> set (a @ l)" by (rule set_drop_subset)
  with a l have w: "list_all (cmatch c) (drop (length l) (a @ l))"
    by (auto simp: list_all_iff)
  from m r0 have "match_here (Rep c n g # its) r0 \<noteq> None" by simp
  from rep_prepend [OF w this] d
  have "match_here (Rep c n g # its) (drop (length l) (a @ r)) \<noteq> None" by simp
  with pa have "match_here (Close # lit l @ Open # Rep c n g # its) (a @ r) \<noteq> None"
    by (auto simp: match_lit)
  with n show False by simp
qed

lemma timestamp_ones:
  "timestamp_re = map One [Digit, Digit, Digit, Digit, Lit CHR ''-'', Digit, Digit, Lit CHR ''-'',
     Digit, Digit, Lit CHR ''T'', Digit, Digit, Lit CHR '':'', Digit, Digit, Lit CHR '':'',
     Digit, Digit]"
  by (simp add: timestamp_re_def digits_def lit_def eval_nat_numeral)

lemma movie_watch_re_nested:
  "movie_watch_re = Open # timestamp_re @ Close # lit '','' @ Open # Rep Digit 1 True # Close #
     lit '',GET /data/m/'' @ Open # Rep Dot 1 False #
     Close # lit ''/'' @ Open # Rep Digit 1 True # Close # lit ''.mpg''"
  by (simp add: movie_watch_re_def grp_def)

lemma digits_stop:
  "match_here (Close # lit (a # l) @ its) r = Some ps \<Longrightarrow> \<not> is_digit a \<Longrightarrow>
   r \<noteq> [] \<and> \<not> cmatch Digit (hd r)"
  using starts_with_lit [of a l its r ps] by simp

lemma digits_stop_end:
  "match_here (Close # lit (a # l)) r = Some ps \<Longrightarrow> \<not> is_digit a \<Longrightarrow>
   r \<noteq> [] \<and> \<not> cmatch Digit (hd r)"
  using starts_with_lit [of a l "[]" r ps] by simp

lemma stable_movie: "stable y movie_watch_re"
proof -
  have 1: "stable y (Close # lit ''.mpg'')"
    by (intro stable_Close stable_lit_end)
  have 2: "stable y (Rep Digit 1 True # Close # lit ''.mpg'')"
    by (rule stable_greedy [OF 1]) (erule digits_stop_end, simp add: is_digit_def)
  have 3: "stable y (Close # lit ''/'' @ Open # Rep Digit 1 True # Close # lit ''.mpg'')"
    by (intro stable_Close stable_lit stable_Open 2)
  have 4: "stable y (Rep Dot 1 False # Close # lit ''/'' @ Open # Rep Digit 1 True # Close # lit ''.mpg'')"
    by (rule stable_lazy [OF 3], rule tail_side) (simp_all add: is_digit_def)
  have 5: "stable y (Close # lit '',GET /data/m/'' @ Open # Rep Dot 1 False #
      Close # lit ''/'' @ Open # Rep Digit 1 True # Close # lit ''.mpg'')"
    by (intro stable_Close stable_lit stable_Open 4)
  have 6: "stable y (Rep Digit 1 True # Close # lit '',GET /data/m/'' @ Open # Rep Dot 1 False #
      Close # lit ''/'' @ Open # Rep Digit 1 True # Close # lit ''.mpg'')"
    by (rule stable_greedy [OF 5]) (erule digits_stop, simp add: is_digit_def)
  have 7: "stable y (Close # lit '','' @ Open # Rep Digit 1 True # Close # lit '',GET /data/m/'' @
      Open # Rep Dot 1 False # Close # lit ''/'' @ Open # Rep Digit 1 True # Close # lit ''.mpg'')"
    by (intro stable_Close stable_lit stable_Open 6)
  show ?thesis
    unfolding movie_watch_re_nested timestamp_ones
    by (intro stable_Open stable_ones 7)
qed

lemma recommendation_re_nested:
  "recommendation_re = Open # timestamp_re @ lit ''.'' @ Rep Digit 1 True # Close # lit '','' @
     Open # Rep Digit 1 True # Close # lit '',recommendation request '' @
     Open # Rep Dot 0 False # Close # lit '', status '' @
     Open # Rep Dot 0 False # Close # lit '', result: '' @
     Open # Rep Dot 0 False # Close # lit '', '' @
     Open # Rep Digit 1 True # Close # lit '' ms''"
  by (simp add: recommendation_re_def grp_def)

lemma stable_recommendation: "stable y recommendation_re"
proof -
  have 1: "stable y (Close # lit '' ms'')"
    by (intro stable_Close stable_lit_end)
  have 2: "stable y (Rep Digit 1 True # Close # lit '' ms'')"
    by (rule stable_greedy [OF 1]) (erule digits_stop_end, simp add: is_digit_def)
  have 3: "stable y (Close # lit '', '' @ Open # Rep Digit 1 True # Close # lit '' ms'')"
    by (intro stable_Close stable_lit stable_Open 2)
  have 4: "stable y (Rep Dot 0 False # Close # lit '', '' @ Open # Rep Digit 1 True # Close # lit '' ms'')"
    by (rule stable_lazy [OF 3], rule tail_side) (simp_all add: is_digit_def)
  have 5: "stable y (Close # lit '', result: '' @ Open # Rep Dot 0 False #
      Close # lit '', '' @ Open # Rep Digit 1 True # Close # lit '' ms'')"
    by (intro stable_Close stable_lit stable_Open 4)
  have 6: "stable y (Rep Dot 0 False # Close # lit '', result: '' @ Open # Rep Dot 0 False #
      Close # lit '', '' @ Open # Rep Digit 1 True # Close # lit '' ms'')"
    by (rule stable_lazy [OF 5], rule lazy_lit_side) simp_all
  have 7: "stable y (Close # lit '', status '' @ Open # Rep Dot 0 False #
      Close # lit '', result: '' @ Open # Rep Dot 0 False #
      Close # lit '', '' @ Open # Rep Digit 1 True # Close # lit '' ms'')"
    by (intro stable_Close stable_lit stable_Open 6)
  have 8: "stable y (Rep Dot 0 False # Close # lit '', status '' @ Open # Rep Dot 0 False #
      Close # lit '', result: '' @ Open # Rep Dot 0 False #
      Close # lit '', '' @ Open # Rep Digit 1 True # Close # lit '' ms'')"
    by (rule stable_lazy [OF 7], rule lazy_lit_side) simp_all
  have 9: "stable y (Close # lit '',recommendation request '' @ Open #
      Rep Dot 0 False # Close # lit '', status '' @ Open # Rep Dot 0 False #
      Close # lit '', result: '' @ Open # Rep Dot 0 False #
      Close # lit '', '' @ Open # Rep Digit 1 True # Close # lit '' ms'')"
    by (intro stable_Close stable_lit stable_Open 8)
  have 10: "stable y (Rep Digit 1 True # Close # lit '',recommendation request '' @ Open #
      Rep Dot 0 False # Close # lit '', status '' @ Open # Rep Dot 0 False #
      Close # lit '', result: '' @ Open # Rep Dot 0 False #
      Close # lit '', '' @ Open # Rep Digit 1 True # Close # lit '' ms'')"
    by (rule stable_greedy [OF 9]) (erule digits_stop, simp add: is_digit_def)
  have 11: "stable y (Close # lit '','' @ Open # Rep Digit 1 True # Close #
      lit '',recommendation request '' @ Open #
      Rep Dot 0 False # Close # lit '', status '' @ Open # Rep Dot 0 False #
      Close # lit '', result: '' @ Open # Rep Dot 0 False #
      Close # lit '', '' @ Open # Rep Digit 1 True # Close # lit '' ms'')"
    by (intro stable_Close stable_lit stable_Open 10)
  have 12: "stable y (Rep Digit 1 True # Close # lit '','' @ Open # Rep Digit 1 True # Close #
      lit '',recommendation request '' @ Open #
      Rep Dot 0 False # Close # lit '', status '' @ Open # Rep Dot 0 False #
      Close # lit '', result: '' @ Open # Rep Dot 0 False #
      Close # lit '', '' @ Open # Rep Digit 1 True # Close # lit '' ms'')"
    by (rule stable_greedy [OF 11]) (erule digits_stop, simp add: is_digit_def)
  show ?thesis
    unfolding recommendation_re_nested timestamp_ones
    by (intro stable_Open stable_ones stable_lit 12)
qed

subsection \<open>No match appears further left\<close>

lemma piece_avoids: "avoids c it \<Longrightarrow> piece_ok it p \<Longrightarrow> c \<notin> set p"
  by (cases it) (auto simp: list_all_iff)

lemma fits_avoids: "fits its qs \<Longrightarrow> list_all (avoids c) its \<Longrightarrow> c \<notin> set (concat qs)"
proof (induction its arbitrary: qs)
  case Nil
  then show ?case by simp
next
  case (Cons it its)
  from Cons.prems(1) obtain p ps' where q: "qs = p # ps'" "piece_ok it p" "fits its ps'" by auto
  from Cons.prems(2) have "avoids c it" "list_all (avoids c) its" by simp_all
  with q Cons.IH [of ps'] piece_avoids [of c it p] show ?case by simp
qed

lemma split_at_char:
  assumes "c \<notin> set a" "a @ b = d @ c # e"
  shows "\<exists>w. d = a @ w \<and> b = w @ c # e"
proof -
  from assms(2) obtain us where us: "a = d @ us \<and> us @ b = c # e \<or> a @ us = d \<and> b = us @ c # e"
    unfolding append_eq_append_conv2 by blast
  then show ?thesis
  proof
    assume u: "a = d @ us \<and> us @ b = c # e"
    show ?thesis
    proof (cases us)
      case Nil
      with u have "d = a @ [] \<and> b = [] @ c # e" by simp
      then show ?thesis by blast
    next
      case (Cons u0 us')
      with u have "u0 = c" by simp
      with Cons u have "c \<in> set a" by simp
      with assms(1) show ?thesis by simp
    qed
  next
    assume "a @ us = d \<and> b = us @ c # e"
    then have "d = a @ us \<and> b = us @ c # e" by simp
    then show ?thesis by blast
  qed
qed

lemma split_after_prefix:
  assumes "length l \<le> length e" "l @ x = e @ z"
  shows "\<exists>d. e = l @ d \<and> x = d @ z"
proof -
  from assms(2) obtain us where us: "l = e @ us \<and> us @ x = z \<or> l @ us = e \<and> x = us @ z"
    unfolding append_eq_append_conv2 by blast
  then show ?thesis
  proof
    assume u: "l = e @ us \<and> us @ x = z"
    with assms(1) have "us = []" by (cases us) (auto dest: arg_cong [where f = length])
    with u have "e = l @ [] \<and> x = [] @ z" by simp
    then show ?thesis by blast
  next
    assume "l @ us = e \<and> x = us @ z"
    then have "e = l @ us \<and> x = us @ z" by simp
    then show ?thesis by blast
  qed
qed

lemma fits_lazy_pattern:
  "fits (h @ lit l @ Open # Rep Dot n False # t) qs \<longleftrightarrow>
     (\<exists>qh qd qt. qs = qh @ map (\<lambda>c. [c]) l @ [] # qd # qt \<and> fits h qh \<and>
        n \<le> length qd \<and> CHR 0x0A \<notin> set qd \<and> fits t qt)"
proof
  assume "fits (h @ lit l @ Open # Rep Dot n False # t) qs"
  then obtain qh pb where a: "qs = qh @ pb" "fits h qh"
    and "fits (lit l @ Open # Rep Dot n False # t) pb"
    unfolding fits_append by blast
  then obtain pl pc where b: "pb = pl @ pc" "fits (lit l) pl"
    and c: "fits (Open # Rep Dot n False # t) pc"
    unfolding fits_append by blast
  from c obtain qd qt where "pc = [] # qd # qt" "n \<le> length qd" "CHR 0x0A \<notin> set qd" "fits t qt"
    by (auto simp: cmatch_dot)
  with a b show "\<exists>qh qd qt. qs = qh @ map (\<lambda>c. [c]) l @ [] # qd # qt \<and> fits h qh \<and>
        n \<le> length qd \<and> CHR 0x0A \<notin> set qd \<and> fits t qt"
    by (auto simp: fits_lit)
next
  assume "\<exists>qh qd qt. qs = qh @ map (\<lambda>c. [c]) l @ [] # qd # qt \<and> fits h qh \<and>
        n \<le> length qd \<and> CHR 0x0A \<notin> set qd \<and> fits t qt"
  then obtain qh qd qt where qs: "qs = qh @ map (\<lambda>c. [c]) l @ [] # qd # qt" and qh: "fits h qh"
    and qd: "n \<le> length qd" "CHR 0x0A \<notin> set qd" and qt: "fits t qt" by blast
  have 1: "fits (lit l) (map (\<lambda>c. [c]) l)" by (simp only: fits_lit)
  from qd qt have 2: "fits (Open # Rep Dot n False # t) ([] # qd # qt)"
    by (simp add: cmatch_dot)
  from 1 2 have "fits (lit l @ Open # Rep Dot n False # t) (map (\<lambda>c. [c]) l @ [] # qd # qt)"
    unfolding fits_append by blast
  with qh show "fits (h @ lit l @ Open # Rep Dot n False # t) qs"
    unfolding qs fits_append by blast
qed

lemma no_earlier_match:
  assumes h: "list_all (avoids c) h" and t: "list_all (avoids CHR 0x0A) t"
    and k: "CHR 0x0A \<notin> set (c # k)"
    and none: "match_here (h @ lit (c # k) @ Open # Rep Dot n False # t) s = None"
    and later: "fits (h @ lit (c # k) @ Open # Rep Dot n False # t) ps" "s = x0 @ concat ps @ post"
  shows "match_here (h @ lit (c # k) @ Open # Rep Dot n False # t) (s @ y) = None"
proof (rule ccontr)
  let ?P = "h @ lit (c # k) @ Open # Rep Dot n False # t"
  assume "match_here ?P (s @ y) \<noteq> None"
  then obtain qs where "match_here ?P (s @ y) = Some qs" by auto
  from match_here_sound [OF this] obtain rest where
    fq: "fits ?P qs" and sy: "s @ y = concat qs @ rest" by auto
  from fq obtain qh qd qt where
    qs: "qs = qh @ map (\<lambda>c. [c]) (c # k) @ [] # qd # qt" and qh: "fits h qh"
    and qd: "n \<le> length qd" "CHR 0x0A \<notin> set qd" and qt: "fits t qt"
    unfolding fits_lazy_pattern by blast
  from later(1) obtain ph pd pt where
    ps: "ps = ph @ map (\<lambda>c. [c]) (c # k) @ [] # pd # pt" and ph: "fits h ph"
    and pd: "n \<le> length pd" "CHR 0x0A \<notin> set pd" and pt: "fits t pt"
    unfolding fits_lazy_pattern by blast
  have cq: "concat qs = concat qh @ (c # k) @ qd @ concat qt"
    unfolding qs using concat_singletons [of "c # k"] by simp
  have cp: "concat ps = concat ph @ (c # k) @ pd @ concat pt"
    unfolding ps using concat_singletons [of "c # k"] by simp
  from fits_avoids [OF qh h] have ch: "c \<notin> set (concat qh)" .
  from fits_avoids [OF qt t] have nt: "CHR 0x0A \<notin> set (concat qt)" .
  from sy later(2) cq cp
  have "concat qh @ ((c # k) @ qd @ concat qt @ rest) =
        (x0 @ concat ph) @ c # (k @ pd @ concat pt @ post @ y)"
    by simp
  from split_at_char [OF ch this] obtain w where
    w: "x0 @ concat ph = concat qh @ w"
    and w2: "(c # k) @ qd @ concat qt @ rest = w @ c # (k @ pd @ concat pt @ post @ y)"
    by blast
  from w2 have "(c # k) @ (qd @ concat qt @ rest) = (w @ (c # k) @ pd) @ (concat pt @ post @ y)"
    by simp
  from split_after_prefix [OF _ this] obtain d where
    d: "w @ (c # k) @ pd = (c # k) @ d" and d2: "qd @ concat qt @ rest = d @ concat pt @ post @ y"
    by auto
  from d have "length (w @ (c # k) @ pd) = length ((c # k) @ d)" by simp
  with pd(1) have nd: "n \<le> length d" by simp
  have s: "s = concat qh @ (c # k) @ d @ concat pt @ post"
  proof -
    have "s = (x0 @ concat ph) @ (c # k) @ pd @ concat pt @ post"
      using later(2) cp by simp
    also have "\<dots> = concat qh @ (w @ (c # k) @ pd) @ concat pt @ post"
      unfolding w by simp
    also have "\<dots> = concat qh @ (c # k) @ d @ concat pt @ post"
      unfolding d by simp
    finally show ?thesis .
  qed
  from d2 have "(qd @ concat qt) @ rest = d @ (concat pt @ post @ y)" by simp
  then obtain us where
    us: "qd @ concat qt = d @ us \<and> us @ rest = concat pt @ post @ y \<or>
         (qd @ concat qt) @ us = d \<and> rest = us @ concat pt @ post @ y"
    unfolding append_eq_append_conv2 by blast
  then show False
  proof
    assume u: "qd @ concat qt = d @ us \<and> us @ rest = concat pt @ post @ y"
    then have "set d \<subseteq> set (qd @ concat qt)" by simp
    with qd(2) nt have dn: "CHR 0x0A \<notin> set d" by auto
    let ?rs = "qh @ map (\<lambda>c. [c]) (c # k) @ [] # d # pt"
    from qh nd dn pt have f: "fits ?P ?rs"
      unfolding fits_lazy_pattern by blast
    have "concat ?rs = concat qh @ (c # k) @ d @ concat pt"
      using concat_singletons [of "c # k"] by simp
    with s have "s = concat ?rs @ post" by simp
    from match_here_complete [OF f this] none show False by simp
  next
    assume u: "(qd @ concat qt) @ us = d \<and> rest = us @ concat pt @ post @ y"
    then have "d = qd @ concat qt @ us" by simp
    with s cq have "s = concat qs @ (us @ concat pt @ post)" by simp
    from match_here_complete [OF fq this] none show False by simp
  qed
qed

lemma search_append:
  assumes st: "stable y P"
    and ne: "\<And>s ps x0 post. match_here P s = None \<Longrightarrow> fits P ps \<Longrightarrow> s = x0 @ concat ps @ post \<Longrightarrow>
               match_here P (s @ y) = None"
  shows "re_search_pieces P l = Some ps \<Longrightarrow> re_search_pieces P (l @ y) = Some ps"
proof (induction l)
  case Nil
  then have "match_here P [] = Some ps" by simp
  with st have "match_here P ([] @ y) = Some ps" unfolding stable_def by blast
  then show ?case by (cases y) simp_all
next
  case (Cons c cs)
  show ?case
  proof (cases "match_here P (c # cs)")
    case (Some qs)
    with Cons.prems have "match_here P (c # cs) = Some ps" by simp
    with st have "match_here P ((c # cs) @ y) = Some ps" unfolding stable_def by blast
    then show ?thesis by simp
  next
    case None
    with Cons.prems have r: "re_search_pieces P cs = Some ps" by simp
    from search_sound [OF r] obtain pre post where
      f: "fits P ps" and cs: "cs = pre @ concat ps @ post" by auto
    from cs have "c # cs = (c # pre) @ concat ps @ post" by simp
    from ne [OF None f this] have "match_here P (c # cs @ y) = None" by simp
    with Cons.IH [OF r] show ?thesis by simp
  qed
qed

lemma search_prepend:
  "\<not> match_begins P x rest \<Longrightarrow> re_search_pieces P (x @ rest) = re_search_pieces P rest"
  by (induction x) auto

lemma avoids_timestamp: "\<not> is_digit c \<Longrightarrow> c \<notin> set ''-T:'' \<Longrightarrow> list_all (avoids c) timestamp_re"
  unfolding timestamp_ones by simp

lemma movie_watch_re_split:
  "movie_watch_re =
     (Open # timestamp_re @ Close # lit '','' @ Open # Rep Digit 1 True # Close # lit '','') @
     lit ''GET /data/m/'' @ Open # Rep Dot 1 False #
     (Close # lit ''/'' @ Open # Rep Digit 1 True # Close # lit ''.mpg'')"
  by (simp add: movie_watch_re_def grp_def lit_def)

lemma recommendation_re_split:
  "recommendation_re =
     (Open # timestamp_re @ lit ''.'' @ Rep Digit 1 True # Close # lit '','' @
      Open # Rep Digit 1 True # Close # lit '','') @
     lit ''recommendation request '' @ Open # Rep Dot 0 False #
     (Close # lit '', status '' @ Open # Rep Dot 0 False # Close # lit '', result: '' @
      Open # Rep Dot 0 False # Close # lit '', '' @
      Open # Rep Digit 1 True # Close # lit '' ms'')"
  by (simp add: recommendation_re_def grp_def lit_def)

lemma movie_no_earlier:
  assumes "match_here movie_watch_re s = None" "fits movie_watch_re ps" "s = x0 @ concat ps @ post"
  shows "match_here movie_watch_re (s @ y) = None"
  using assms unfolding movie_watch_re_split
  by (rule no_earlier_match [rotated 3])
     (simp_all add: avoids_timestamp is_digit_def lit_def)

lemma recommendation_no_earlier:
  assumes "match_here recommendation_re s = None" "fits recommendation_re ps"
    "s = x0 @ concat ps @ post"
  shows "match_here recommendation_re (s @ y) = None"
  using assms unfolding recommendation_re_split
  by (rule no_earlier_match [rotated 3])
     (simp_all add: avoids_timestamp is_digit_def lit_def)

lemma movie_search_around:
  assumes "re_search movie_watch_re l = Some gs" "\<not> match_begins movie_watch_re x (l @ y)"
  shows "re_search movie_watch_re (x @ l @ y) = Some gs"
proof -
  from assms(1) obtain ps where ps: "re_search_pieces movie_watch_re l = Some ps"
    and gs: "gs = groups movie_watch_re ps None" by (auto simp: re_search_def)
  have "re_search_pieces movie_watch_re (l @ y) = Some ps"
    by (rule search_append [OF stable_movie _ ps]) (rule movie_no_earlier; assumption)
  with search_prepend [OF assms(2)] gs show ?thesis by (simp add: re_search_def)
qed

lemma recommendation_search_around:
  assumes "re_search recommendation_re l = Some gs" "\<not> match_begins recommendation_re x (l @ y)"
  shows "re_search recommendation_re (x @ l @ y) = Some gs"
proof -
  from assms(1) obtain ps where ps: "re_search_pieces recommendation_re l = Some ps"
    and gs: "gs = groups recommendation_re ps None" by (auto simp: re_search_def)
  have "re_search_pieces recommendation_re (l @ y) = Some ps"
    by (rule search_append [OF stable_recommendation _ ps]) (rule recommendation_no_earlier; assumption)
  with search_prepend [OF assms(2)] gs show ?thesis by (simp add: re_search_def)
qed

lemma movie_parse_around:
  assumes "snd (parse_movie_watch l) = Inr (Some r)" "\<not> match_begins movie_watch_re x (l @ y)"
  shows "parse_movie_watch (x @ l @ y) = ([], Inr (Some r))"
proof -
  from assms(1) obtain gs where g: "re_search movie_watch_re l = Some gs"
    by (auto simp: parse_movie_watch_def split: option.splits)
  from movie_search_around [OF g assms(2)]
  have g': "re_search movie_watch_re (x @ l @ y) = Some gs" .
  have "parse_movie_watch (x @ l @ y) = parse_movie_watch l"
    unfolding parse_movie_watch_def g g' by simp
  moreover from g have "fst (parse_movie_watch l) = []"
    unfolding parse_movie_watch_def by (auto split: list.splits sum.splits)
  ultimately show ?thesis using assms(1) by (simp add: prod_eq_iff)
qed

lemma recommendation_parse_around:
  assumes "snd (parse_recommendation l) = Inr (Some r)"
    "\<not> match_begins recommendation_re x (l @ y)"
  shows "parse_recommendation (x @ l @ y) = ([], Inr (Some r))"
proof -
  from assms(1) obtain gs where g: "re_search recommendation_re l = Some gs"
    by (auto simp: parse_recommendation_def split: option.splits)
  from recommendation_search_around [OF g assms(2)]
  have g': "re_search recommendation_re (x @ l @ y) = Some gs" .
  have "parse_recommendation (x @ l @ y) = parse_recommendation l"
    unfolding parse_recommendation_def g g' by simp
  moreover from g have "fst (parse_recommendation l) = []"
    unfolding parse_recommendation_def by (auto split: list.splits sum.splits)
  ultimately show ?thesis using assms(1) by (simp add: prod_eq_iff)
qed

section \<open>What the movie-watch parser returns\<close>

lemma filter_digits: "list_all is_digit u \<Longrightarrow> filter is_digit u = u"
  by (induction u) auto

lemma py_int_digits:
  assumes "u \<noteq> []" "list_all is_digit u"
  shows "py_int u = (if length u \<le> 4300 then Inr (decimal u) else Inl ValueError)"
proof -
  from assms obtain c r where u: "u = c # r" and c: "is_digit c" by (cases u) auto
  from c have "c \<noteq> CHR ''-''" "c \<noteq> CHR ''+''" by (auto simp: is_digit_def)
  then show ?thesis
    using strip_digits [OF assms] digits_us_digits [OF assms] filter_digits [OF assms(2)] u
    by (simp add: py_int_def max_str_digits_def)
qed

lemma py_replace_char:
  "py_replace [a] [b] s = map (\<lambda>c. if c = a then b else c) s"
  by (induction s) auto

lemma re_search_Some:
  "re_search its s = Some gs \<Longrightarrow>
   \<exists>ps pre post. fits its ps \<and> gs = groups its ps None \<and> s = pre @ concat ps @ post"
  using search_sound [of its s] by (auto simp: re_search_def)

lemma movie_watch_parsed:
  assumes "re_search movie_watch_re entry = Some gs"
  shows "\<exists>pre t u m n post.
           entry = pre @ t @ '','' @ u @ '',GET /data/m/'' @ m @ ''/'' @ n @ ''.mpg'' @ post \<and>
           gs = [t, u, m, n] \<and> u \<noteq> [] \<and> list_all is_digit u \<and>
           parse_movie_watch entry =
             (if length u \<le> 4300
              then ([], Inr (Some [(''time'', StrV t),
                             (''userid'', IntV (decimal u)),
                             (''movieid'', StrV (map (\<lambda>c. if c = CHR ''+'' then CHR '' '' else c) m)),
                             (''minute'', StrV n)]))
              else ([], Inl ValueError))"
proof -
  from re_search_Some [OF assms] obtain ps pre post where
    f: "fits movie_watch_re ps" and gs: "gs = groups movie_watch_re ps None"
    and e: "entry = pre @ concat ps @ post" by auto
  from movie_watch_fits [OF f] obtain t u m n where
    g: "groups movie_watch_re ps None = [t, u, m, n]"
    and c: "concat ps = t @ '','' @ u @ '',GET /data/m/'' @ m @ ''/'' @ n @ ''.mpg''"
    and u: "u \<noteq> []" "list_all is_digit u" by auto
  have p: "parse_movie_watch entry =
             (if length u \<le> 4300
              then ([], Inr (Some [(''time'', StrV t),
                             (''userid'', IntV (decimal u)),
                             (''movieid'', StrV (map (\<lambda>c. if c = CHR ''+'' then CHR '' '' else c) m)),
                             (''minute'', StrV n)]))
              else ([], Inl ValueError))"
    using assms gs g py_int_digits [OF u] py_replace_char [of "CHR ''+''" "CHR '' ''" m]
    by (simp add: parse_movie_watch_def)
  from e c have "entry = pre @ t @ '','' @ u @ '',GET /data/m/'' @ m @ ''/'' @ n @ ''.mpg'' @ post"
    by simp
  with gs g u p show ?thesis by blast
qed

lemma movie_scenario_search:
  "re_search movie_watch_re ''2023-08-01T10:16:00,42,GET /data/m/The+Matrix/5.mpg'' =
     Some [''2023-08-01T10:16:00'', ''42'', ''The+Matrix'', ''5'']"
  by code_simp

lemma movie_scenario_parse:
  "parse_movie_watch ''2023-08-01T10:16:00,42,GET /data/m/The+Matrix/5.mpg'' =
     ([], Inr (Some [(''time'', StrV ''2023-08-01T10:16:00''), (''userid'', IntV 42),
                     (''movieid'', StrV ''The Matrix''), (''minute'', StrV ''5'')]))"
  by code_simp

lemma long_userid_search:
  "re_search movie_watch_re
     (''2023-08-01T10:16:00,'' @ replicate 4301 CHR ''7'' @ '',GET /data/m/The+Matrix/5.mpg'') =
     Some [''2023-08-01T10:16:00'', replicate 4301 CHR ''7'', ''The+Matrix'', ''5'']"
proof -
  let ?rest = "Close # lit '',GET /data/m/'' @ Open # Rep Dot 1 False #
     Close # lit ''/'' @ Open # Rep Digit 1 True # Close # lit ''.mpg''"
  let ?tail = "'',GET /data/m/The+Matrix/5.mpg''"
  let ?u = "replicate 4301 CHR ''7''"
  let ?ps0 = "[] # map (\<lambda>c. [c]) '',GET /data/m/'' @ [[], ''The+Matrix'', [], ''/'', [], ''5'', []] @
     map (\<lambda>c. [c]) ''.mpg''"
  have "match_here ?rest ?tail = Some ?ps0" by code_simp
  then have g: "match_here (Rep Digit 1 True # ?rest) (?u @ ?tail) = Some (?u # ?ps0)"
    by (intro greedy_success) (simp_all add: list_all_iff is_digit_def)
  show ?thesis
    unfolding re_search_def movie_watch_re_nested timestamp_ones
    using g by (simp add: match_lit is_digit_def lit_def)
qed

text \<open>
  C7, as the code has it. Whenever the movie-watch pattern is found in a line, the line
  holds, around the literals of the pattern, a time \<open>t\<close>, a non-empty run of digits
  \<open>u\<close>, a path segment \<open>m\<close> and a minute \<open>n\<close>. If \<open>u\<close> has at most 4300 digits, the
  parser returns the record whose \<^verbatim>\<open>movieid\<close> is \<open>m\<close> with every \<^verbatim>\<open>"+"\<close> turned into a
  space and every other character kept, whose \<^verbatim>\<open>userid\<close> is the decimal value of \<open>u\<close>,
  and whose \<^verbatim>\<open>minute\<close> is the string \<open>n\<close>. The line of scenario 2 gives the record of
  the specification.
\<close>

theorem movie_watch_record:
  "(\<forall>entry gs. re_search movie_watch_re entry = Some gs \<longrightarrow>
      (\<exists>pre t u m n post.
         entry = pre @ t @ '','' @ u @ '',GET /data/m/'' @ m @ ''/'' @ n @ ''.mpg'' @ post \<and>
         gs = [t, u, m, n] \<and> u \<noteq> [] \<and> list_all is_digit u \<and>
         (length u \<le> 4300 \<longrightarrow>
          parse_movie_watch entry =
            ([], Inr (Some [(''time'', StrV t),
                            (''userid'', IntV (decimal u)),
                            (''movieid'', StrV (map (\<lambda>c. if c = CHR ''+'' then CHR '' '' else c) m)),
                            (''minute'', StrV n)]))))) \<and>
   parse_movie_watch ''2023-08-01T10:16:00,42,GET /data/m/The+Matrix/5.mpg'' =
     ([], Inr (Some [(''time'', StrV ''2023-08-01T10:16:00''), (''userid'', IntV 42),
                     (''movieid'', StrV ''The Matrix''), (''minute'', StrV ''5'')]))"
proof (intro conjI allI impI)
  fix entry gs assume "re_search movie_watch_re entry = Some gs"
  from movie_watch_parsed [OF this] obtain pre t u m n post where
    a: "entry = pre @ t @ '','' @ u @ '',GET /data/m/'' @ m @ ''/'' @ n @ ''.mpg'' @ post"
    "gs = [t, u, m, n]" "u \<noteq> []" "list_all is_digit u"
    and p: "parse_movie_watch entry =
             (if length u \<le> 4300
              then ([], Inr (Some [(''time'', StrV t),
                             (''userid'', IntV (decimal u)),
                             (''movieid'', StrV (map (\<lambda>c. if c = CHR ''+'' then CHR '' '' else c) m)),
                             (''minute'', StrV n)]))
              else ([], Inl ValueError))"
    by blast
  from p have "length u \<le> 4300 \<longrightarrow>
          parse_movie_watch entry =
            ([], Inr (Some [(''time'', StrV t),
                            (''userid'', IntV (decimal u)),
                            (''movieid'', StrV (map (\<lambda>c. if c = CHR ''+'' then CHR '' '' else c) m)),
                            (''minute'', StrV n)]))"
    by simp
  with a show "\<exists>pre t u m n post.
         entry = pre @ t @ '','' @ u @ '',GET /data/m/'' @ m @ ''/'' @ n @ ''.mpg'' @ post \<and>
         gs = [t, u, m, n] \<and> u \<noteq> [] \<and> list_all is_digit u \<and>
         (length u \<le> 4300 \<longrightarrow>
          parse_movie_watch entry =
            ([], Inr (Some [(''time'', StrV t),
                            (''userid'', IntV (decimal u)),
                            (''movieid'', StrV (map (\<lambda>c. if c = CHR ''+'' then CHR '' '' else c) m)),
                            (''minute'', StrV n)])))"
    by blast
next
  show "parse_movie_watch ''2023-08-01T10:16:00,42,GET /data/m/The+Matrix/5.mpg'' =
     ([], Inr (Some [(''time'', StrV ''2023-08-01T10:16:00''), (''userid'', IntV 42),
                     (''movieid'', StrV ''The Matrix''), (''minute'', StrV ''5'')]))"
    by (rule movie_scenario_parse)
qed

theorem movie_watch_record_witness:
  "re_search movie_watch_re ''2023-08-01T10:16:00,42,GET /data/m/The+Matrix/5.mpg'' =
     Some [''2023-08-01T10:16:00'', ''42'', ''The+Matrix'', ''5''] \<and>
   length ''42'' \<le> 4300 \<and>
   (\<exists>pre post.
      ''2023-08-01T10:16:00,42,GET /data/m/The+Matrix/5.mpg'' =
        pre @ ''2023-08-01T10:16:00'' @ '','' @ ''42'' @ '',GET /data/m/'' @ ''The+Matrix'' @ ''/'' @
        ''5'' @ ''.mpg'' @ post) \<and>
   parse_movie_watch ''2023-08-01T10:16:00,42,GET /data/m/The+Matrix/5.mpg'' =
     ([], Inr (Some [(''time'', StrV ''2023-08-01T10:16:00''),
                     (''userid'', IntV (decimal ''42'')),
                     (''movieid'', StrV (map (\<lambda>c. if c = CHR ''+'' then CHR '' '' else c) ''The+Matrix'')),
                     (''minute'', StrV ''5'')]))"
proof -
  let ?l = "''2023-08-01T10:16:00,42,GET /data/m/The+Matrix/5.mpg''"
  from movie_watch_record movie_scenario_search obtain pre t u m n post where
    a: "?l = pre @ t @ '','' @ u @ '',GET /data/m/'' @ m @ ''/'' @ n @ ''.mpg'' @ post"
    and g: "[''2023-08-01T10:16:00'', ''42'', ''The+Matrix'', ''5''] = [t, u, m, n]"
    and p: "length u \<le> 4300 \<longrightarrow>
          parse_movie_watch ?l =
            ([], Inr (Some [(''time'', StrV t),
                            (''userid'', IntV (decimal u)),
                            (''movieid'', StrV (map (\<lambda>c. if c = CHR ''+'' then CHR '' '' else c) m)),
                            (''minute'', StrV n)]))"
    by blast
  from g have e: "t = ''2023-08-01T10:16:00''" "u = ''42''" "m = ''The+Matrix''" "n = ''5''"
    by simp_all
  have l: "length ''42'' \<le> 4300" by simp
  from a have x: "\<exists>pre post.
      ?l = pre @ ''2023-08-01T10:16:00'' @ '','' @ ''42'' @ '',GET /data/m/'' @ ''The+Matrix'' @ ''/'' @
        ''5'' @ ''.mpg'' @ post"
    unfolding e by blast
  from p l have y: "parse_movie_watch ?l =
     ([], Inr (Some [(''time'', StrV ''2023-08-01T10:16:00''),
                     (''userid'', IntV (decimal ''42'')),
                     (''movieid'', StrV (map (\<lambda>c. if c = CHR ''+'' then CHR '' '' else c) ''The+Matrix'')),
                     (''minute'', StrV ''5'')]))"
    unfolding e by blast
  from movie_scenario_search l x y show ?thesis by (intro conjI)
qed

text \<open>
  C7, as stated, fails: a line in which the pattern is found, with a user id of 4301
  digits, gives no record, since \<^verbatim>\<open>int\<close> refuses a number that long.
\<close>

theorem long_userid_counterexample:
  "re_search movie_watch_re
     (''2023-08-01T10:16:00,'' @ replicate 4301 CHR ''7'' @ '',GET /data/m/The+Matrix/5.mpg'') =
     Some [''2023-08-01T10:16:00'', replicate 4301 CHR ''7'', ''The+Matrix'', ''5''] \<and>
   parse_movie_watch
     (''2023-08-01T10:16:00,'' @ replicate 4301 CHR ''7'' @ '',GET /data/m/The+Matrix/5.mpg'') =
     ([], Inl ValueError)"
proof -
  let ?line = "''2023-08-01T10:16:00,'' @ replicate 4301 CHR ''7'' @ '',GET /data/m/The+Matrix/5.mpg''"
  from movie_watch_parsed [OF long_userid_search] long_userid_search
  have "parse_movie_watch ?line = ([], Inl ValueError)" by auto
  with long_userid_search show ?thesis by (intro conjI)
qed

section \<open>Lines with text around them\<close>

text \<open>
  C9, as stated, fails: text put in front of a line can hold a match of its own, and the
  search takes the leftmost one. The watch line of scenario 2 behind another watch entry
  gives the record of that entry, and the recommendation line of scenario 1 behind
  another recommendation entry gives the record of that entry.
\<close>

theorem surrounding_text_counterexample:
  "parse_movie_watch ''2023-08-01T10:16:00,42,GET /data/m/The+Matrix/5.mpg'' =
     ([], Inr (Some [(''time'', StrV ''2023-08-01T10:16:00''), (''userid'', IntV 42),
                     (''movieid'', StrV ''The Matrix''), (''minute'', StrV ''5'')])) \<and>
   parse_movie_watch (''2023-08-01T09:00:00,7,GET /data/m/Up/9.mpg '' @
                      ''2023-08-01T10:16:00,42,GET /data/m/The+Matrix/5.mpg'') =
     ([], Inr (Some [(''time'', StrV ''2023-08-01T09:00:00''), (''userid'', IntV 7),
                     (''movieid'', StrV ''Up''), (''minute'', StrV ''9'')])) \<and>
   parse_recommendation
     ''2023-08-01T10:15:30.123,42,recommendation request srv1, status 200, result: tt001, tt002, 150 ms'' =
     ([], Inr (Some [(''time'', StrV ''2023-08-01T10:15:30.123''),
                     (''userid'', IntV 42),
                     (''server'', StrV ''srv1''),
                     (''status'', IntV 200),
                     (''recommendations'', ListV [StrV ''tt001'', StrV ''tt002'']),
                     (''responsetime'', StrV ''150 ms'')])) \<and>
   parse_recommendation
     (''2023-08-01T09:00:00.5,7,recommendation request srv0, status 500, result: tt009, 1 ms '' @
      ''2023-08-01T10:15:30.123,42,recommendation request srv1, status 200, result: tt001, tt002, 150 ms'') =
     ([], Inr (Some [(''time'', StrV ''2023-08-01T09:00:00.5''),
                     (''userid'', IntV 7),
                     (''server'', StrV ''srv0''),
                     (''status'', IntV 500),
                     (''recommendations'', ListV [StrV ''tt009'']),
                     (''responsetime'', StrV ''1 ms'')]))"
proof -
  have a: "parse_movie_watch (''2023-08-01T09:00:00,7,GET /data/m/Up/9.mpg '' @
                      ''2023-08-01T10:16:00,42,GET /data/m/The+Matrix/5.mpg'') =
     ([], Inr (Some [(''time'', StrV ''2023-08-01T09:00:00''), (''userid'', IntV 7),
                     (''movieid'', StrV ''Up''), (''minute'', StrV ''9'')]))"
    by code_simp
  have b: "parse_recommendation
     ''2023-08-01T10:15:30.123,42,recommendation request srv1, status 200, result: tt001, tt002, 150 ms'' =
     ([], Inr (Some [(''time'', StrV ''2023-08-01T10:15:30.123''),
                     (''userid'', IntV 42),
                     (''server'', StrV ''srv1''),
                     (''status'', IntV 200),
                     (''recommendations'', ListV [StrV ''tt001'', StrV ''tt002'']),
                     (''responsetime'', StrV ''150 ms'')]))"
    by code_simp
  have c: "parse_recommendation
     (''2023-08-01T09:00:00.5,7,recommendation request srv0, status 500, result: tt009, 1 ms '' @
      ''2023-08-01T10:15:30.123,42,recommendation request srv1, status 200, result: tt001, tt002, 150 ms'') =
     ([], Inr (Some [(''time'', StrV ''2023-08-01T09:00:00.5''),
                     (''userid'', IntV 7),
                     (''server'', StrV ''srv0''),
                     (''status'', IntV 500),
                     (''recommendations'', ListV [StrV ''tt009'']),
                     (''responsetime'', StrV ''1 ms'')]))"
    by code_simp
  from movie_scenario_parse a b c show ?thesis by (intro conjI)
qed

text \<open>
  C9, as the code has it. A line that the movie-watch parser or the recommendation
  parser parses to a record \<open>r\<close> is parsed to the same record \<open>r\<close> with any text \<open>y\<close>
  appended to it, and also with a text \<open>x\<close> put in front of it, provided that no match
  of the pattern begins inside \<open>x\<close>.
\<close>

theorem surrounding_text_same_record:
  "(snd (parse_movie_watch l) = Inr (Some r) \<longrightarrow>
      parse_movie_watch (l @ y) = ([], Inr (Some r)) \<and>
      (\<not> match_begins movie_watch_re x (l @ y) \<longrightarrow>
         parse_movie_watch (x @ l @ y) = ([], Inr (Some r)))) \<and>
   (snd (parse_recommendation l) = Inr (Some r) \<longrightarrow>
      parse_recommendation (l @ y) = ([], Inr (Some r)) \<and>
      (\<not> match_begins recommendation_re x (l @ y) \<longrightarrow>
         parse_recommendation (x @ l @ y) = ([], Inr (Some r))))"
proof (intro conjI impI)
  assume a: "snd (parse_movie_watch l) = Inr (Some r)"
  from movie_parse_around [OF a, of "[]" y]
  show "parse_movie_watch (l @ y) = ([], Inr (Some r))" by simp
  assume "\<not> match_begins movie_watch_re x (l @ y)"
  from movie_parse_around [OF a this]
  show "parse_movie_watch (x @ l @ y) = ([], Inr (Some r))" .
next
  assume a: "snd (parse_recommendation l) = Inr (Some r)"
  from recommendation_parse_around [OF a, of "[]" y]
  show "parse_recommendation (l @ y) = ([], Inr (Some r))" by simp
  assume "\<not> match_begins recommendation_re x (l @ y)"
  from recommendation_parse_around [OF a this]
  show "parse_recommendation (x @ l @ y) = ([], Inr (Some r))" .
qed

theorem surrounding_text_same_record_witness:
  "snd (parse_movie_watch ''2023-08-01T10:16:00,42,GET /data/m/The+Matrix/5.mpg'') =
     Inr (Some [(''time'', StrV ''2023-08-01T10:16:00''), (''userid'', IntV 42),
                (''movieid'', StrV ''The Matrix''), (''minute'', StrV ''5'')]) \<and>
   \<not> match_begins movie_watch_re ''host7 ''
       (''2023-08-01T10:16:00,42,GET /data/m/The+Matrix/5.mpg'' @ '' HTTP/1.1'') \<and>
   parse_movie_watch (''2023-08-01T10:16:00,42,GET /data/m/The+Matrix/5.mpg'' @ '' HTTP/1.1'') =
     ([], Inr (Some [(''time'', StrV ''2023-08-01T10:16:00''), (''userid'', IntV 42),
                     (''movieid'', StrV ''The Matrix''), (''minute'', StrV ''5'')])) \<and>
   parse_movie_watch (''host7 '' @ ''2023-08-01T10:16:00,42,GET /data/m/The+Matrix/5.mpg'' @
                      '' HTTP/1.1'') =
     ([], Inr (Some [(''time'', StrV ''2023-08-01T10:16:00''), (''userid'', IntV 42),
                     (''movieid'', StrV ''The Matrix''), (''minute'', StrV ''5'')])) \<and>
   snd (parse_recommendation
     ''2023-08-01T10:15:30.123,42,recommendation request srv1, status 200, result: tt001, tt002, 150 ms'') =
     Inr (Some [(''time'', StrV ''2023-08-01T10:15:30.123''),
                (''userid'', IntV 42),
                (''server'', StrV ''srv1''),
                (''status'', IntV 200),
                (''recommendations'', ListV [StrV ''tt001'', StrV ''tt002'']),
                (''responsetime'', StrV ''150 ms'')]) \<and>
   \<not> match_begins recommendation_re ''host7 ''
       (''2023-08-01T10:15:30.123,42,recommendation request srv1, status 200, result: tt001, tt002, 150 ms'' @
        '', 7 ms (cached)'') \<and>
   parse_recommendation
     (''2023-08-01T10:15:30.123,42,recommendation request srv1, status 200, result: tt001, tt002, 150 ms'' @
      '', 7 ms (cached)'') =
     ([], Inr (Some [(''time'', StrV ''2023-08-01T10:15:30.123''),
                     (''userid'', IntV 42),
                     (''server'', StrV ''srv1''),
                     (''status'', IntV 200),
                     (''recommendations'', ListV [StrV ''tt001'', StrV ''tt002'']),
                     (''responsetime'', StrV ''150 ms'')])) \<and>
   parse_recommendation (''host7 '' @
     ''2023-08-01T10:15:30.123,42,recommendation request srv1, status 200, result: tt001, tt002, 150 ms'' @
     '', 7 ms (cached)'') =
     ([], Inr (Some [(''time'', StrV ''2023-08-01T10:15:30.123''),
                     (''userid'', IntV 42),
                     (''server'', StrV ''srv1''),
                     (''status'', IntV 200),
                     (''recommendations'', ListV [StrV ''tt001'', StrV ''tt002'']),
                     (''responsetime'', StrV ''150 ms'')]))"
proof -
  let ?m = "''2023-08-01T10:16:00,42,GET /data/m/The+Matrix/5.mpg''"
  let ?mr = "[(''time'', StrV ''2023-08-01T10:16:00''), (''userid'', IntV 42),
                (''movieid'', StrV ''The Matrix''), (''minute'', StrV ''5'')]"
  let ?l = "''2023-08-01T10:15:30.123,42,recommendation request srv1, status 200, result: tt001, tt002, 150 ms''"
  let ?lr = "[(''time'', StrV ''2023-08-01T10:15:30.123''),
                (''userid'', IntV 42),
                (''server'', StrV ''srv1''),
                (''status'', IntV 200),
                (''recommendations'', ListV [StrV ''tt001'', StrV ''tt002'']),
                (''responsetime'', StrV ''150 ms'')]"
  have a: "snd (parse_movie_watch ?m) = Inr (Some ?mr)" by code_simp
  have b: "snd (parse_recommendation ?l) = Inr (Some ?lr)" by code_simp
  have c: "\<not> match_begins movie_watch_re ''host7 '' (?m @ '' HTTP/1.1'')" by code_simp
  have d: "\<not> match_begins recommendation_re ''host7 '' (?l @ '', 7 ms (cached)'')" by code_simp
  from surrounding_text_same_record [of ?m ?mr "'' HTTP/1.1''" "''host7 ''"] a c
  have e: "parse_movie_watch (?m @ '' HTTP/1.1'') = ([], Inr (Some ?mr))"
    and f: "parse_movie_watch (''host7 '' @ ?m @ '' HTTP/1.1'') = ([], Inr (Some ?mr))"
    by blast+
  from surrounding_text_same_record [of ?l ?lr "'', 7 ms (cached)''" "''host7 ''"] b d
  have g: "parse_recommendation (?l @ '', 7 ms (cached)'') = ([], Inr (Some ?lr))"
    and h: "parse_recommendation (''host7 '' @ ?l @ '', 7 ms (cached)'') = ([], Inr (Some ?lr))"
    by blast+
  from a c e f b d g h show ?thesis by (intro conjI)
qed


section \<open>The codec gives back what it was given\<close>

declare varint.simps [simp del] read_long_loop.simps [simp del] read_blocks.simps [simp del]

lemma and_127: "(n::int) AND 127 = n mod 128"
proof -
  have "(127::int) = mask 7" by (simp add: mask_eq_exp_minus_1)
  then have "n AND 127 = take_bit 7 n" by (simp add: take_bit_eq_mask)
  then show ?thesis by (simp add: take_bit_eq_mod)
qed

lemma and_not_127: "(n::int) AND - 128 = n div 128 * 128"
proof -
  have m: "(- 128::int) = NOT (mask 7)" by (simp add: mask_eq_exp_minus_1 not_int_def)
  have "n AND NOT (mask 7) = push_bit 7 (drop_bit 7 n)"
    by (rule bit_eqI) (auto simp: bit_simps)
  then show ?thesis by (simp only: m push_bit_eq_mult drop_bit_eq_div) simp
qed

lemma big_iff: "0 \<le> n \<Longrightarrow> (n::int) AND NOT 127 \<noteq> 0 \<longleftrightarrow> 128 \<le> n"
proof -
  assume "0 \<le> n"
  then have "n div 128 * 128 \<noteq> 0 \<longleftrightarrow> 128 \<le> n" by auto
  then show ?thesis by (simp add: and_not_127)
qed

lemma or_push: "0 \<le> acc \<Longrightarrow> acc < 2 ^ sh \<Longrightarrow> (acc::int) OR push_bit sh x = acc + x * 2 ^ sh"
proof -
  assume a: "0 \<le> acc" "acc < 2 ^ sh"
  have "acc + push_bit sh x = acc OR push_bit sh x"
  proof (rule disjunctive_add)
    fix n
    show "\<not> bit acc n \<or> \<not> bit (push_bit sh x) n"
    proof (cases "sh \<le> n")
      case True
      then have "(2::int) ^ sh \<le> 2 ^ n" by simp
      with a have "acc < 2 ^ n" by linarith
      with a have "acc div 2 ^ n = 0" by (simp add: div_pos_pos_trivial)
      then show ?thesis by (simp add: bit_iff_odd)
    next
      case False
      then show ?thesis by (simp add: bit_simps)
    qed
  qed
  then show ?thesis by (simp add: push_bit_eq_mult)
qed

lemma or_128: "0 \<le> (x::int) \<Longrightarrow> x < 128 \<Longrightarrow> x OR 128 = x + 128"
  using or_push [of x 7 1] by simp

lemma and_128: "(b::int) AND 128 \<noteq> 0 \<longleftrightarrow> odd (b div 128)"
proof -
  have "(128::int) = 2 ^ 7" by simp
  then have "b AND 128 = 0 \<longleftrightarrow> \<not> bit b 7"
    by (metis and_exp_eq_0_iff_not_bit)
  then show ?thesis by (simp add: bit_iff_odd)
qed

lemma uint_byte: "0 \<le> k \<Longrightarrow> k < 256 \<Longrightarrow> uint (word_of_int k :: byte) = k"
  by (simp add: uint_word_of_int)

lemma zigzag_nonneg: "0 \<le> d \<Longrightarrow> d < 2 ^ 63 \<Longrightarrow> zigzag d = 2 * d"
  by (simp add: zigzag_def drop_bit_eq_div push_bit_eq_mult)

lemma zigzag_neg: "d < 0 \<Longrightarrow> - (2 ^ 63) \<le> d \<Longrightarrow> zigzag d = - 2 * d - 1"
proof -
  assume a: "d < 0" "- (2 ^ 63) \<le> d"
  then have "d div 2 ^ 63 = - 1"
    by (intro int_div_pos_eq [where r = "d + 2 ^ 63"]) auto
  then show ?thesis
    by (simp add: zigzag_def drop_bit_eq_div push_bit_eq_mult not_int_def)
qed

lemma unzigzag_even: "unzigzag (2 * d) = d"
  by (simp add: unzigzag_def drop_bit_eq_div and_one_eq)

lemma unzigzag_odd: "unzigzag (- 2 * d - 1) = d"
proof -
  have 1: "(- 2 * d - 1) div 2 = - d - 1" by simp
  have 2: "(- 2 * d - 1) mod 2 = 1" by presburger
  show ?thesis
    by (simp add: unzigzag_def drop_bit_eq_div and_one_eq 1 2 not_int_def del: mult_minus_left)
qed

lemma varint_small: "0 \<le> z \<Longrightarrow> z < 128 \<Longrightarrow> varint z = [word_of_int z]"
  by (subst varint.simps) (simp add: and_not_127)

lemma varint_big:
  "128 \<le> z \<Longrightarrow> varint z = word_of_int (z mod 128 + 128) # varint (z div 128)"
proof -
  assume a: "128 \<le> z"
  then have "z AND NOT 127 \<noteq> 0" using big_iff [of z] by simp
  moreover have "(z AND 127) OR 128 = z mod 128 + 128"
    using or_128 [of "z mod 128"] by (simp add: and_127)
  ultimately show ?thesis
    using a by (subst varint.simps) (simp add: drop_bit_eq_div del: varint.simps)
qed

lemma read_varint:
  "0 \<le> z \<Longrightarrow> 0 \<le> acc \<Longrightarrow> acc < 2 ^ sh \<Longrightarrow>
   \<exists>b bs. varint z = b # bs \<and>
     read_long_loop (uint b) (acc OR push_bit sh (uint b AND 127)) (sh + 7) (bs @ rest) =
       Inr (acc + z * 2 ^ sh, rest)"
proof (induction z arbitrary: acc sh rule: varint.induct)
  case (1 z)
  show ?case
  proof (cases "z < 128")
    case True
    with "1.prems" have v: "varint z = [word_of_int z]" by (rule_tac varint_small) auto
    from True "1.prems" have u: "uint (word_of_int z :: byte) = z" by (simp add: uint_byte)
    from True "1.prems" have "\<not> odd (z div 128)" by simp
    then have e: "z AND 128 = 0" using and_128 [of z] by simp
    from True "1.prems" have m: "z AND 127 = z" by (simp add: and_127)
    show ?thesis
      unfolding v using or_push [OF "1.prems"(2,3), of z]
      by (subst read_long_loop.simps) (simp add: u e m del: read_long_loop.simps)
  next
    case False
    then have big: "128 \<le> z" by simp
    let ?b = "word_of_int (z mod 128 + 128) :: byte"
    have v: "varint z = ?b # varint (z div 128)" using big by (rule varint_big)
    have u: "uint ?b = z mod 128 + 128" by (rule uint_byte) simp_all
    have "(z mod 128 + 128) div 128 = 1" by simp
    then have o: "(z mod 128 + 128) AND 128 \<noteq> 0" using and_128 [of "z mod 128 + 128"] by simp
    have m: "(z mod 128 + 128) AND 127 = z mod 128" by (simp add: and_127)
    let ?acc = "acc + (z mod 128) * 2 ^ sh"
    have acc0: "0 \<le> ?acc" using "1.prems" by simp
    have "(z mod 128) * 2 ^ sh \<le> 127 * (2 ^ sh :: int)"
      by (rule mult_right_mono) simp_all
    moreover have "(2::int) ^ (sh + 7) = 128 * 2 ^ sh" by (simp add: power_add)
    ultimately have acc1: "?acc < 2 ^ (sh + 7)" using "1.prems"(3) by linarith
    from big "1.prems" have c: "0 \<le> z \<and> z AND NOT 127 \<noteq> 0" using big_iff [of z] by simp
    have z0: "0 \<le> drop_bit 7 z" using "1.prems" by (simp add: drop_bit_eq_div)
    from "1.IH" [OF c z0 acc0 acc1] obtain b' bs' where
      v': "varint (z div 128) = b' # bs'"
      and r: "read_long_loop (uint b') (?acc OR push_bit (sh + 7) (uint b' AND 127)) (sh + 7 + 7)
               (bs' @ rest) = Inr (?acc + z div 128 * 2 ^ (sh + 7), rest)"
      by (auto simp: drop_bit_eq_div)
    have s: "?acc + z div 128 * 2 ^ (sh + 7) = acc + z * 2 ^ sh"
    proof -
      have "z * 2 ^ sh = (z div 128 * 128 + z mod 128) * 2 ^ sh" by simp
      also have "\<dots> = z mod 128 * 2 ^ sh + z div 128 * (128 * 2 ^ sh)"
        by (simp only: distrib_right mult.assoc add.commute)
      finally show ?thesis by (simp add: power_add)
    qed
    have first: "acc OR push_bit sh (uint ?b AND 127) = ?acc"
      using or_push [OF "1.prems"(2,3), of "z mod 128"] by (simp only: u m)
    have step: "read_long_loop (uint ?b) n0 (sh + 7) ((b' # bs') @ rest) =
        read_long_loop (uint b') (n0 OR push_bit (sh + 7) (uint b' AND 127)) (sh + 7 + 7)
          (bs' @ rest)" for n0
      by (subst read_long_loop.simps) (simp only: u o if_True append_Cons list.case simp_thms)
    have "read_long_loop (uint ?b) (acc OR push_bit sh (uint ?b AND 127)) (sh + 7)
            ((b' # bs') @ rest) = Inr (acc + z * 2 ^ sh, rest)"
      by (simp only: first step r s)
    with v v' show ?thesis by simp
  qed
qed

lemma read_write_long:
  assumes "- (2 ^ 63) \<le> d" "d < 2 ^ 63"
  shows "read_long (write_long d @ rest) = Inr (d, rest)"
proof -
  have z: "0 \<le> zigzag d" and uz: "unzigzag (zigzag d) = d"
    using assms zigzag_nonneg [of d] zigzag_neg [of d] unzigzag_even [of d] unzigzag_odd [of d]
    by (cases "0 \<le> d"; simp)+
  from read_varint [OF z, of 0 0 rest] obtain b bs where
    v: "varint (zigzag d) = b # bs"
    and r: "read_long_loop (uint b) (uint b AND 127) 7 (bs @ rest) = Inr (zigzag d, rest)"
    by auto
  show ?thesis
    by (simp add: read_long_def write_long_def v r exn_bind_def uz del: read_long_loop.simps)
qed

lemma unat_byte: "n < 256 \<Longrightarrow> unat (of_nat n :: byte) = n"
  by (simp add: unat_of_nat)

lemma utf8_round: "utf8_decode (utf8_encode s) = Inr s"
proof (induction s)
  case Nil
  show ?case by simp
next
  case (Cons c s)
  let ?n = "of_char c :: nat"
  have lt: "?n < 256" by simp
  show ?case
  proof (cases "?n < 128")
    case True
    then have "unat (of_nat ?n :: byte) = ?n" by (simp add: unat_byte)
    with True Cons show ?thesis by (simp add: exn_bind_def Let_def)
  next
    case False
    with lt have d: "?n div 64 = 2 \<or> ?n div 64 = 3" by arith
    have m: "?n mod 64 < 64" by simp
    from d have b1: "unat (of_nat (192 + ?n div 64) :: byte) = 192 + ?n div 64"
      by (intro unat_byte) auto
    from m have b2: "unat (of_nat (128 + ?n mod 64) :: byte) = 128 + ?n mod 64"
      by (intro unat_byte) auto
    have glue: "?n div 64 * 64 + ?n mod 64 = ?n" by simp
    have "utf8_decode (of_nat (192 + ?n div 64) # of_nat (128 + ?n mod 64) # utf8_encode s) =
          Inr (char_of (?n div 64 * 64 + ?n mod 64) # s)"
      apply (subst utf8_decode.simps)
      apply (simp only: b1 b2 list.case Cons exn_bind_def sum.case)
      using d apply auto
      done
    with False show ?thesis by (simp add: Let_def glue del: utf8_decode.simps)
  qed
qed

lemma rw_prim:
  assumes "validate_prim t v" "small v"
  shows "\<exists>bs. write_prim t v = Inr bs \<and> read_prim t (bs @ rest) = Inr (v, rest)"
proof (cases t)
  case TInt
  with assms obtain i where v: "v = IntV i" and r: "- (2 ^ 31) \<le> i" "i \<le> 2 ^ 31 - 1"
    by (cases v) auto
  from r have "- (2 ^ 63) \<le> i" "i < 2 ^ 63" by auto
  from read_write_long [OF this, of rest] show ?thesis
    by (simp add: TInt v exn_bind_def)
next
  case TLong
  with assms obtain i where v: "v = IntV i" and r: "- (2 ^ 63) \<le> i" "i \<le> 2 ^ 63 - 1"
    by (cases v) auto
  from r have "- (2 ^ 63) \<le> i" "i < 2 ^ 63" by auto
  from read_write_long [OF this, of rest] show ?thesis
    by (simp add: TLong v exn_bind_def)
next
  case TString
  with assms obtain s where v: "v = StrV s" and l: "int (length (utf8_encode s)) < 2 ^ 63"
    by (cases v) auto
  have "- (2 ^ 63) \<le> int (length (utf8_encode s))" by simp
  from read_write_long [OF this l, of "utf8_encode s @ rest"] show ?thesis
    by (simp add: TString v exn_bind_def Let_def utf8_round)
qed

lemma rw_items:
  assumes "list_all (validate_prim t) xs" "list_all small xs"
  shows "\<exists>bs. write_items t xs = Inr bs \<and> read_items t (length xs) (bs @ rest) = Inr (xs, rest)"
  using assms
proof (induction xs arbitrary: rest)
  case Nil
  show ?case by simp
next
  case (Cons x xs)
  from Cons.prems Cons.IH [of rest] obtain bs where
    bs: "write_items t xs = Inr bs" "read_items t (length xs) (bs @ rest) = Inr (xs, rest)"
    by auto
  from Cons.prems rw_prim [of t x "bs @ rest"] obtain b where
    b: "write_prim t x = Inr b" "read_prim t (b @ bs @ rest) = Inr (x, bs @ rest)"
    by auto
  show ?case by (simp add: b bs exn_bind_def)
qed

lemma read_blocks_end: "read_blocks t (write_long 0 @ rest) = Inr ([], rest)"
  using read_write_long [of 0 rest] by (subst read_blocks.simps) simp

lemma rw_data:
  assumes "validate t v" "small v"
  shows "\<exists>bs. write_data t v = Inr bs \<and> read_data t (bs @ rest) = Inr (v, rest)"
proof (cases t)
  case (Prim p)
  with assms rw_prim [of p v rest] show ?thesis by simp
next
  case (Array p)
  with assms obtain xs where v: "v = ListV xs" and va: "list_all (validate_prim p) xs"
    and len: "int (length xs) < 2 ^ 63" and sm: "list_all small xs"
    by (cases v) auto
  from rw_items [OF va sm, of "write_long 0 @ rest"] obtain bs where
    bs: "write_items p xs = Inr bs"
    "read_items p (length xs) (bs @ write_long 0 @ rest) = Inr (xs, write_long 0 @ rest)"
    by auto
  show ?thesis
  proof (cases "xs = []")
    case True
    with bs show ?thesis
      by (simp add: Array v exn_bind_def read_blocks_end)
  next
    case False
    have l0: "- (2 ^ 63) \<le> int (length xs)" by simp
    have rl: "read_long (write_long (int (length xs)) @ bs @ write_long 0 @ rest) =
              Inr (int (length xs), bs @ write_long 0 @ rest)"
      by (rule read_write_long [OF l0 len])
    have "read_blocks p (write_long (int (length xs)) @ bs @ write_long 0 @ rest) = Inr (xs, rest)"
      using False by (subst read_blocks.simps) (simp add: rl bs read_blocks_end)
    with False bs show ?thesis
      by (simp add: Array v exn_bind_def)
  qed
qed

lemma small_lookup: "small_record d \<Longrightarrow> map_of d name = Some v \<Longrightarrow> small v"
  by (auto simp: small_record_def list_all_iff dest: map_of_SomeD)

lemma rw_record:
  assumes "validate_record sch d" "small_record d"
  shows "\<exists>bs. write_record sch d = Inr bs \<and>
           read_record sch (bs @ rest) =
             Inr (map (\<lambda>(name, t). (name, the (map_of d name))) sch, rest)"
  using assms(1)
proof (induction sch arbitrary: rest)
  case Nil
  show ?case by simp
next
  case (Cons f sch)
  obtain name t where f: "f = (name, t)" by (cases f)
  from Cons.prems f obtain v where v: "map_of d name = Some v" "validate t v"
    and rest_ok: "validate_record sch d"
    by (auto simp: validate_record_def split: option.splits)
  from Cons.IH [OF rest_ok, of rest] obtain bs where
    bs: "write_record sch d = Inr bs"
    "read_record sch (bs @ rest) = Inr (map (\<lambda>(name, t). (name, the (map_of d name))) sch, rest)"
    by auto
  from rw_data [OF v(2) small_lookup [OF assms(2) v(1)], of "bs @ rest"] obtain b where
    b: "write_data t v = Inr b" "read_data t (b @ bs @ rest) = Inr (v, bs @ rest)"
    by auto
  show ?case by (simp add: f v b bs exn_bind_def)
qed

lemma encode_decode:
  assumes "validate_record sch d" "small_record d"
  shows "\<exists>bs. encode_avro d sch = Inr bs \<and>
           decode_avro bs sch = Inr (map (\<lambda>(name, t). (name, the (map_of d name))) sch)"
  using rw_record [OF assms, of "[]"] assms(1)
  by (auto simp: encode_avro_def decode_avro_def exn_bind_def)

lemma movie_shape:
  "snd (parse_movie_watch l) = Inr (Some d) \<Longrightarrow>
   \<exists>t u m n. d = [(''time'', StrV t), (''userid'', IntV u), (''movieid'', StrV m), (''minute'', StrV n)]"
  unfolding parse_movie_watch_def
  by (auto split: option.splits list.splits sum.splits)

lemma recommendation_shape:
  "snd (parse_recommendation l) = Inr (Some d) \<Longrightarrow>
   \<exists>t u sv st rs rt. d = [(''time'', StrV t), (''userid'', IntV u), (''server'', StrV sv),
      (''status'', IntV st), (''recommendations'', ListV (map StrV rs)), (''responsetime'', StrV rt)]"
  unfolding parse_recommendation_def
  by (auto split: option.splits list.splits sum.splits)

lemma rating_shape:
  "snd (parse_rating l) = Inr (Some d) \<Longrightarrow>
   \<exists>t u m r. d = [(''time'', StrV t), (''userid'', IntV u), (''movieid'', StrV m), (''rating'', StrV r)]"
  unfolding parse_rating_def Let_def exn_bind_def
  by (auto split: sum.splits)

lemma validate_strs: "list_all (validate_prim TString) (map StrV rs)"
  by (induction rs) auto

lemma movie_valid:
  "k = TInt \<or> k = TLong \<Longrightarrow>
   d = [(''time'', StrV t), (''userid'', IntV u), (''movieid'', StrV m), (''minute'', StrV n)] \<Longrightarrow>
   validate_record (movie_watch_avsc k) d = ints_fit k d \<and>
   map (\<lambda>(name, t). (name, the (map_of d name))) (movie_watch_avsc k) = d"
  by (auto simp: ints_fit_def validate_record_def movie_watch_avsc_def)

lemma rating_valid:
  "k = TInt \<or> k = TLong \<Longrightarrow>
   d = [(''time'', StrV t), (''userid'', IntV u), (''movieid'', StrV m), (''rating'', StrV r)] \<Longrightarrow>
   validate_record (movie_rating_avsc k) d = ints_fit k d \<and>
   map (\<lambda>(name, t). (name, the (map_of d name))) (movie_rating_avsc k) = d"
  by (auto simp: ints_fit_def validate_record_def movie_rating_avsc_def)

lemma recommendation_valid:
  "k = TInt \<or> k = TLong \<Longrightarrow>
   d = [(''time'', StrV t), (''userid'', IntV u), (''server'', StrV sv),
      (''status'', IntV st), (''recommendations'', ListV (map StrV rs)), (''responsetime'', StrV rt)] \<Longrightarrow>
   validate_record (recommendation_request_avsc k) d = ints_fit k d \<and>
   map (\<lambda>(name, t). (name, the (map_of d name))) (recommendation_request_avsc k) = d"
  by (auto simp: ints_fit_def validate_record_def recommendation_request_avsc_def validate_strs)

lemma parsed_valid:
  assumes "k = TInt \<or> k = TLong"
    and "snd (parse_recommendation line) = Inr (Some d) \<and> sch = recommendation_request_avsc k \<or>
         snd (parse_movie_watch line) = Inr (Some d) \<and> sch = movie_watch_avsc k \<or>
         snd (parse_rating line) = Inr (Some d) \<and> sch = movie_rating_avsc k"
  shows "validate_record sch d = ints_fit k d \<and>
         map (\<lambda>(name, t). (name, the (map_of d name))) sch = d"
  using assms(2)
proof (elim disjE conjE)
  assume a: "snd (parse_recommendation line) = Inr (Some d)" "sch = recommendation_request_avsc k"
  from recommendation_shape [OF a(1)] obtain t u sv st rs rt where
    "d = [(''time'', StrV t), (''userid'', IntV u), (''server'', StrV sv),
      (''status'', IntV st), (''recommendations'', ListV (map StrV rs)), (''responsetime'', StrV rt)]"
    by blast
  from recommendation_valid [OF assms(1) this] a(2) show ?thesis by simp
next
  assume a: "snd (parse_movie_watch line) = Inr (Some d)" "sch = movie_watch_avsc k"
  from movie_shape [OF a(1)] obtain t u m n where
    "d = [(''time'', StrV t), (''userid'', IntV u), (''movieid'', StrV m), (''minute'', StrV n)]"
    by blast
  from movie_valid [OF assms(1) this] a(2) show ?thesis by simp
next
  assume a: "snd (parse_rating line) = Inr (Some d)" "sch = movie_rating_avsc k"
  from rating_shape [OF a(1)] obtain t u m r where
    "d = [(''time'', StrV t), (''userid'', IntV u), (''movieid'', StrV m), (''rating'', StrV r)]"
    by blast
  from rating_valid [OF assms(1) this] a(2) show ?thesis by simp
qed

text \<open>
  C4, as the code has it. Take a line that one of the three parsers parses into a record,
  and the schema of its category with integer type \<^verbatim>\<open>int\<close> or \<^verbatim>\<open>long\<close>. If the
  integers of the record are in the range of that type (and its strings and lists are
  \<open>small\<close>), encoding the record and decoding the bytes with the same schema gives the
  record back. If an integer of the record is outside that range, the writer raises
  and produces no bytes.
\<close>

theorem parse_encode_decode:
  assumes "k = TInt \<or> k = TLong"
    and "snd (parse_recommendation line) = Inr (Some d) \<and> sch = recommendation_request_avsc k \<or>
         snd (parse_movie_watch line) = Inr (Some d) \<and> sch = movie_watch_avsc k \<or>
         snd (parse_rating line) = Inr (Some d) \<and> sch = movie_rating_avsc k"
  shows "(ints_fit k d \<and> small_record d \<longrightarrow>
            (\<exists>bs. encode_avro d sch = Inr bs \<and> decode_avro bs sch = Inr d)) \<and>
         (\<not> ints_fit k d \<longrightarrow> encode_avro d sch = Inl AvroTypeException)"
proof (intro conjI impI)
  from parsed_valid [OF assms] have v: "validate_record sch d = ints_fit k d"
    and m: "map (\<lambda>(name, t). (name, the (map_of d name))) sch = d" by simp_all
  {
    assume "ints_fit k d \<and> small_record d"
    with v have "validate_record sch d" "small_record d" by simp_all
    from encode_decode [OF this] m
    show "\<exists>bs. encode_avro d sch = Inr bs \<and> decode_avro bs sch = Inr d" by simp
  }
  {
    assume "\<not> ints_fit k d"
    with v show "encode_avro d sch = Inl AvroTypeException"
      by (simp add: encode_avro_def)
  }
qed

theorem parse_encode_decode_witness:
  "(\<exists>bs. encode_avro
           [(''time'', StrV ''2023-08-01T10:15:30.123''), (''userid'', IntV 42),
            (''server'', StrV ''srv1''), (''status'', IntV 200),
            (''recommendations'', ListV [StrV ''tt001'', StrV ''tt002'']),
            (''responsetime'', StrV ''150 ms'')] (recommendation_request_avsc TInt) = Inr bs \<and>
         decode_avro bs (recommendation_request_avsc TInt) =
           Inr [(''time'', StrV ''2023-08-01T10:15:30.123''), (''userid'', IntV 42),
                (''server'', StrV ''srv1''), (''status'', IntV 200),
                (''recommendations'', ListV [StrV ''tt001'', StrV ''tt002'']),
                (''responsetime'', StrV ''150 ms'')]) \<and>
   (\<exists>bs. encode_avro
           [(''time'', StrV ''2023-08-01T10:16:00''), (''userid'', IntV 42),
            (''movieid'', StrV ''The Matrix''), (''minute'', StrV ''5'')] (movie_watch_avsc TLong) = Inr bs \<and>
         decode_avro bs (movie_watch_avsc TLong) =
           Inr [(''time'', StrV ''2023-08-01T10:16:00''), (''userid'', IntV 42),
                (''movieid'', StrV ''The Matrix''), (''minute'', StrV ''5'')]) \<and>
   (\<exists>bs. encode_avro
           [(''time'', StrV ''2023-08-01T10:17:00''), (''userid'', IntV 42),
            (''movieid'', StrV ''Inception''), (''rating'', StrV ''4'')] (movie_rating_avsc TLong) = Inr bs \<and>
         decode_avro bs (movie_rating_avsc TLong) =
           Inr [(''time'', StrV ''2023-08-01T10:17:00''), (''userid'', IntV 42),
                (''movieid'', StrV ''Inception''), (''rating'', StrV ''4'')]) \<and>
   snd (parse_rating ''2023-08-01T10:17:00,3000000000,/data/m/Inception=4'') =
     Inr (Some [(''time'', StrV ''2023-08-01T10:17:00''), (''userid'', IntV 3000000000),
                (''movieid'', StrV ''Inception''), (''rating'', StrV ''4'')]) \<and>
   \<not> ints_fit TInt [(''time'', StrV ''2023-08-01T10:17:00''), (''userid'', IntV 3000000000),
                     (''movieid'', StrV ''Inception''), (''rating'', StrV ''4'')] \<and>
   encode_avro [(''time'', StrV ''2023-08-01T10:17:00''), (''userid'', IntV 3000000000),
                (''movieid'', StrV ''Inception''), (''rating'', StrV ''4'')]
     (movie_rating_avsc TInt) = Inl AvroTypeException"
proof (intro conjI)
  let ?l = "''2023-08-01T10:15:30.123,42,recommendation request srv1, status 200, result: tt001, tt002, 150 ms''"
  let ?d = "[(''time'', StrV ''2023-08-01T10:15:30.123''), (''userid'', IntV 42),
            (''server'', StrV ''srv1''), (''status'', IntV 200),
            (''recommendations'', ListV [StrV ''tt001'', StrV ''tt002'']),
            (''responsetime'', StrV ''150 ms'')]"
  have p: "snd (parse_recommendation ?l) = Inr (Some ?d)" by code_simp
  have i: "ints_fit TInt ?d" by code_simp
  have s: "small_record ?d" by code_simp
  from parse_encode_decode [of TInt ?l ?d "recommendation_request_avsc TInt"] p i s
  show "\<exists>bs. encode_avro ?d (recommendation_request_avsc TInt) = Inr bs \<and>
         decode_avro bs (recommendation_request_avsc TInt) = Inr ?d" by blast
next
  let ?l = "''2023-08-01T10:16:00,42,GET /data/m/The+Matrix/5.mpg''"
  let ?d = "[(''time'', StrV ''2023-08-01T10:16:00''), (''userid'', IntV 42),
            (''movieid'', StrV ''The Matrix''), (''minute'', StrV ''5'')]"
  have p: "snd (parse_movie_watch ?l) = Inr (Some ?d)" by code_simp
  have i: "ints_fit TLong ?d" by code_simp
  have s: "small_record ?d" by code_simp
  from parse_encode_decode [of TLong ?l ?d "movie_watch_avsc TLong"] p i s
  show "\<exists>bs. encode_avro ?d (movie_watch_avsc TLong) = Inr bs \<and>
         decode_avro bs (movie_watch_avsc TLong) = Inr ?d" by blast
next
  let ?l = "''2023-08-01T10:17:00,42,/data/m/Inception=4''"
  let ?d = "[(''time'', StrV ''2023-08-01T10:17:00''), (''userid'', IntV 42),
            (''movieid'', StrV ''Inception''), (''rating'', StrV ''4'')]"
  have p: "snd (parse_rating ?l) = Inr (Some ?d)" by code_simp
  have i: "ints_fit TLong ?d" by code_simp
  have s: "small_record ?d" by code_simp
  from parse_encode_decode [of TLong ?l ?d "movie_rating_avsc TLong"] p i s
  show "\<exists>bs. encode_avro ?d (movie_rating_avsc TLong) = Inr bs \<and>
         decode_avro bs (movie_rating_avsc TLong) = Inr ?d" by blast
next
  let ?l = "''2023-08-01T10:17:00,3000000000,/data/m/Inception=4''"
  let ?d = "[(''time'', StrV ''2023-08-01T10:17:00''), (''userid'', IntV 3000000000),
                (''movieid'', StrV ''Inception''), (''rating'', StrV ''4'')]"
  show p: "snd (parse_rating ?l) = Inr (Some ?d)" by code_simp
  show i: "\<not> ints_fit TInt ?d" by code_simp
  from parse_encode_decode [of TInt ?l ?d "movie_rating_avsc TInt"] p i
  show "encode_avro ?d (movie_rating_avsc TInt) = Inl AvroTypeException" by blast
qed

text \<open>
  C4, as stated, fails: a watch line with a user id of twenty digits parses, and the
  writer rejects the record, since the integer is outside both \<^verbatim>\<open>int\<close> and \<^verbatim>\<open>long\<close>.
\<close>

theorem huge_userid_counterexample:
  "parse_movie_watch ''2023-08-01T10:16:00,99999999999999999999,GET /data/m/The+Matrix/5.mpg'' =
     ([], Inr (Some [(''time'', StrV ''2023-08-01T10:16:00''),
                     (''userid'', IntV 99999999999999999999),
                     (''movieid'', StrV ''The Matrix''), (''minute'', StrV ''5'')])) \<and>
   encode_avro [(''time'', StrV ''2023-08-01T10:16:00''),
                (''userid'', IntV 99999999999999999999),
                (''movieid'', StrV ''The Matrix''), (''minute'', StrV ''5'')]
     (movie_watch_avsc TInt) = Inl AvroTypeException \<and>
   encode_avro [(''time'', StrV ''2023-08-01T10:16:00''),
                (''userid'', IntV 99999999999999999999),
                (''movieid'', StrV ''The Matrix''), (''minute'', StrV ''5'')]
     (movie_watch_avsc TLong) = Inl AvroTypeException"
  by code_simp

end
